theory Spec2Isabelle
  imports Main "HOL-Library.Word"
begin

unbundle bit_operations_syntax

section \<open>Errors\<close>

text \<open>
  Every \<^verbatim>\<open>throw\<close> of \<^verbatim>\<open>hash.cc\<close> and \<^verbatim>\<open>path-info.cc\<close> is a value of this type,
  one constructor per message. The \<^verbatim>\<open>BadHash\<close> constructors are the source's
  \<^verbatim>\<open>BadHash\<close> exception; \<open>AssertionFailed\<close> is a failed \<^verbatim>\<open>assert\<close>; \<open>DivisionByZero\<close>
  and \<open>BufferOverrun\<close> stand for the two places where the C++ leaves the behaviour
  undefined (a remainder by zero, an index past \<^verbatim>\<open>hash[maxHashSize]\<close>).
\<close>

datatype error =
    BadHashNotSRI                \<comment> \<open>"hash '%s' is not SRI"\<close>
  | BadHashNoType                \<comment> \<open>"hash '%s' does not include a type ..."\<close>
  | BadHashTypeMismatch          \<comment> \<open>"hash '%s' should have type '%s'"\<close>
  | BadHashInvalidBase16         \<comment> \<open>"invalid base-16 hash '%s'"\<close>
  | BadHashInvalidBase32         \<comment> \<open>"invalid base-32 hash '%s'"\<close>
  | BadHashInvalidBase64         \<comment> \<open>"invalid base-64 hash '%s'"\<close>
  | BadHashInvalidSRI            \<comment> \<open>"invalid SRI hash '%s'"\<close>
  | BadHashWrongLength           \<comment> \<open>"hash '%s' has wrong length for hash type '%s'"\<close>
  | UnknownHashAlgorithm         \<comment> \<open>UsageError "unknown hash algorithm '%1%', ..."\<close>
  | InvalidBase64Character       \<comment> \<open>the base-64 decoder met a character outside its alphabet\<close>
  | NarSizeUnknown               \<comment> \<open>"cannot calculate fingerprint of path '%s' because its size is not known"\<close>
  | AssertionFailed
  | DivisionByZero
  | BufferOverrun

section \<open>Hashes\<close>

type_synonym u8 = "8 word"
type_synonym u32 = "32 word"

datatype HashType = htMD5 | htSHA1 | htSHA256 | htSHA512

datatype HashFormat = Base64 | Base32 | Base16 | SRI

text \<open>
  Modelled from the spec: the size constants of \<^verbatim>\<open>hash.hh\<close>, which is not among the
  sources. The spec gives the digest lengths 16, 20, 32 and 64 bytes and a buffer of
  64 bytes.
\<close>

definition md5HashSize :: nat where "md5HashSize = 16"
definition sha1HashSize :: nat where "sha1HashSize = 20"
definition sha256HashSize :: nat where "sha256HashSize = 32"
definition sha512HashSize :: nat where "sha512HashSize = 64"
definition maxHashSize :: nat where "maxHashSize = 64"

fun regularHashSize :: "HashType \<Rightarrow> nat" where
  "regularHashSize htMD5 = md5HashSize"
| "regularHashSize htSHA1 = sha1HashSize"
| "regularHashSize htSHA256 = sha256HashSize"
| "regularHashSize htSHA512 = sha512HashSize"

text \<open>
  \<^verbatim>\<open>struct Hash { size_t hashSize; uint8_t hash[maxHashSize]; HashType type; }\<close>.
  The buffer is a list; the C++ type fixes its length to \<open>maxHashSize\<close>.
\<close>

record Hash =
  hashSize :: nat
  hash :: "u8 list"
  type :: HashType

text \<open>
  \<^verbatim>\<open>Hash::Hash(HashType type)\<close>: the regular size and a zeroed buffer. Its assertion
  \<^verbatim>\<open>hashSize <= maxHashSize\<close> holds for each of the four types (\<open>regularHashSize_le\<close>
  below), so the constructor has no failing branch.
\<close>

definition Hash_init :: "HashType \<Rightarrow> Hash" where
  "Hash_init t = \<lparr> hashSize = regularHashSize t, hash = replicate maxHashSize 0, type = t \<rparr>"

text \<open>
  What the data model asks of a Hash: a buffer of \<open>maxHashSize\<close> bytes and a size
  between 1 and \<open>maxHashSize\<close>.
\<close>

definition Hash_inv :: "Hash \<Rightarrow> bool" where
  "Hash_inv h = (length (hash h) = maxHashSize \<and> 1 \<le> hashSize h \<and> hashSize h \<le> maxHashSize)"

text \<open>\<^verbatim>\<open>Hash::operator ==\<close>: the sizes, then the first \<open>hashSize\<close> bytes.\<close>

definition Hash_eq :: "Hash \<Rightarrow> Hash \<Rightarrow> bool" where
  "Hash_eq h h2 =
     (if hashSize h \<noteq> hashSize h2 then False
      else list_all (\<lambda>i. hash h ! i = hash h2 ! i) [0..<hashSize h])"

subsection \<open>Lengths of the renderings\<close>

text \<open>
  Modelled from the spec: \<^verbatim>\<open>base16Len\<close>, \<^verbatim>\<open>base32Len\<close> and \<^verbatim>\<open>base64Len\<close> are declared in
  \<^verbatim>\<open>hash.hh\<close>, which is not among the sources. The spec gives \<open>2n\<close>, the ceiling of
  \<open>8n/5\<close>, and for base-64 the standard padded length, a multiple of four.
\<close>

definition base16Len :: "Hash \<Rightarrow> nat" where
  "base16Len h = hashSize h * 2"

definition base32Len :: "Hash \<Rightarrow> nat" where
  "base32Len h = (hashSize h * 8 + 4) div 5"

definition base64Len :: "Hash \<Rightarrow> nat" where
  "base64Len h = ((4 * hashSize h div 3) + 3) div 4 * 4"

subsection \<open>Rendering\<close>

definition base16Chars :: string where
  "base16Chars = ''0123456789abcdef''"

text \<open>
  \<^verbatim>\<open>printHash16\<close>: two characters a byte, the high nibble first. A size beyond the
  buffer makes the loop read past it.
\<close>

definition printHash16 :: "Hash \<Rightarrow> error + string" where
  "printHash16 h =
     (if maxHashSize < hashSize h then Inl BufferOverrun
      else Inr (concat (map (\<lambda>i. [base16Chars ! unat (drop_bit 4 (hash h ! i)),
                                    base16Chars ! unat (hash h ! i AND 0x0f)])
                            [0..<hashSize h])))"

definition base32Chars :: string where
  "base32Chars = ''0123456789abcdfghijklmnpqrsvwxyz''"

text \<open>
  The body of the loop of \<^verbatim>\<open>printHash32\<close> at counter \<open>n\<close>: both bytes are promoted to
  \<^verbatim>\<open>int\<close>, shifted and or-ed there, and the result is cut to \<^verbatim>\<open>unsigned char\<close>.
  \<open>printHash32_digit\<close> is the value \<^verbatim>\<open>c & 0x1f\<close>, \<open>printHash32_char\<close> the character that
  the step appends.
\<close>

definition printHash32_digit :: "Hash \<Rightarrow> nat \<Rightarrow> u8" where
  "printHash32_digit h n =
     (let b = n * 5;
          i = b div 8;
          j = b mod 8;
          c = (ucast (drop_bit j (ucast (hash h ! i) :: u32)
                      OR (if hashSize h - 1 \<le> i then 0
                          else push_bit (8 - j) (ucast (hash h ! (i + 1)) :: u32))) :: u8)
      in c AND 0x1f)"

definition printHash32_char :: "Hash \<Rightarrow> nat \<Rightarrow> char" where
  "printHash32_char h n = base32Chars ! unat (printHash32_digit h n)"

text \<open>
  \<^verbatim>\<open>printHash32\<close>: the counter runs from \<open>len - 1\<close> down to 0, each step appending one
  character. The two assertions come first.
\<close>

definition printHash32 :: "Hash \<Rightarrow> error + string" where
  "printHash32 h =
     (if hashSize h = 0 then Inl AssertionFailed
      else if base32Len h = 0 then Inl AssertionFailed
      else if maxHashSize < hashSize h then Inl BufferOverrun
      else Inr (map (printHash32_char h) (rev [0..<base32Len h])))"

fun printHashType :: "HashType \<Rightarrow> string" where
  "printHashType htMD5 = ''md5''"
| "printHashType htSHA1 = ''sha1''"
| "printHashType htSHA256 = ''sha256''"
| "printHashType htSHA512 = ''sha512''"


subsection \<open>Base-64\<close>

text \<open>
  Modelled from the spec: \<^verbatim>\<open>base64Encode\<close> and \<^verbatim>\<open>base64Decode\<close> live in \<^verbatim>\<open>util.cc\<close>, which
  is not among the sources. The spec asks for standard RFC 4648 base-64: three bytes
  become four 6-bit digits, the most significant bits first; a last group of one or
  two bytes becomes two or three digits, and \<open>=\<close> pads the text to a multiple of four
  characters. The decoder reads the digits up to the first \<open>=\<close>, so it accepts padded
  and unpadded text, and fails on a character outside the alphabet.
\<close>

definition base64Chars :: string where
  "base64Chars = ''ABCDEFGHIJKLMNOPQRSTUVWXYZabcdefghijklmnopqrstuvwxyz0123456789+/''"

fun base64_digits :: "u8 list \<Rightarrow> nat list" where
  "base64_digits [] = []"
| "base64_digits [a] = [unat a div 4, unat a mod 4 * 16]"
| "base64_digits [a, b] =
     [unat a div 4, unat a mod 4 * 16 + unat b div 16, unat b mod 16 * 4]"
| "base64_digits (a # b # c # bs) =
     [unat a div 4, unat a mod 4 * 16 + unat b div 16,
      unat b mod 16 * 4 + unat c div 64, unat c mod 64] @ base64_digits bs"

definition base64Encode :: "u8 list \<Rightarrow> string" where
  "base64Encode s =
     (let res = map (\<lambda>d. base64Chars ! d) (base64_digits s)
      in res @ replicate ((4 - length res mod 4) mod 4) (CHR ''=''))"

fun base64_bytes :: "nat list \<Rightarrow> u8 list" where
  "base64_bytes (d0 # d1 # d2 # d3 # ds) =
     [of_nat (d0 * 4 + d1 div 16), of_nat (d1 mod 16 * 16 + d2 div 4),
      of_nat (d2 mod 4 * 64 + d3)] @ base64_bytes ds"
| "base64_bytes [d0, d1, d2] =
     [of_nat (d0 * 4 + d1 div 16), of_nat (d1 mod 16 * 16 + d2 div 4)]"
| "base64_bytes [d0, d1] = [of_nat (d0 * 4 + d1 div 16)]"
| "base64_bytes ds = []"

text \<open>The position of the first occurrence of a character, or the length if there is none.\<close>

definition index_of :: "string \<Rightarrow> char \<Rightarrow> nat" where
  "index_of cs c = length (takeWhile (\<lambda>x. x \<noteq> c) cs)"

definition base64Decode :: "string \<Rightarrow> error + u8 list" where
  "base64Decode s =
     (let ds = map (index_of base64Chars) (takeWhile (\<lambda>c. c \<noteq> CHR ''='') s)
      in if list_all (\<lambda>d. d < 64) ds then Inr (base64_bytes ds)
         else Inl InvalidBase64Character)"

subsection \<open>\<^verbatim>\<open>Hash::to_string\<close>\<close>

definition to_string :: "Hash \<Rightarrow> HashFormat \<Rightarrow> bool \<Rightarrow> error + string" where
  "to_string h hashFormat includeType =
     (let s = (if hashFormat = SRI \<or> includeType
               then printHashType (type h) @ (if hashFormat = SRI then ''-'' else '':'')
               else [])
      in case hashFormat of
           Base16 \<Rightarrow> (case printHash16 h of Inl e \<Rightarrow> Inl e | Inr body \<Rightarrow> Inr (s @ body))
         | Base32 \<Rightarrow> (case printHash32 h of Inl e \<Rightarrow> Inl e | Inr body \<Rightarrow> Inr (s @ body))
         | _ \<Rightarrow> (if maxHashSize < hashSize h then Inl BufferOverrun
                 else Inr (s @ base64Encode (take (hashSize h) (hash h)))))"

text \<open>\<^verbatim>\<open>Hash Hash::dummy(htSHA256)\<close>\<close>

definition dummy :: Hash where
  "dummy = Hash_init htSHA256"

subsection \<open>Parsing\<close>

definition parseHashTypeOpt :: "string \<Rightarrow> HashType option" where
  "parseHashTypeOpt s =
     (if s = ''md5'' then Some htMD5
      else if s = ''sha1'' then Some htSHA1
      else if s = ''sha256'' then Some htSHA256
      else if s = ''sha512'' then Some htSHA512
      else None)"

definition parseHashType :: "string \<Rightarrow> error + HashType" where
  "parseHashType s =
     (case parseHashTypeOpt s of Some t \<Rightarrow> Inr t | None \<Rightarrow> Inl UnknownHashAlgorithm)"

text \<open>
  Modelled from the spec: \<^verbatim>\<open>splitPrefixTo\<close> is declared in \<^verbatim>\<open>split.hh\<close>, which is not
  among the sources. By the textual grammar of the spec a prefix is what stands before
  the first separator; the function returns it with the text after the separator, or
  nothing (and the text unchanged) when there is no separator.
\<close>

definition splitPrefixTo :: "string \<Rightarrow> char \<Rightarrow> (string \<times> string) option" where
  "splitPrefixTo s separator =
     (if separator \<in> set s
      then Some (takeWhile (\<lambda>c. c \<noteq> separator) s, tl (dropWhile (\<lambda>c. c \<noteq> separator) s))
      else None)"

text \<open>
  \<^verbatim>\<open>getParsedTypeAndSRI\<close> changes its argument in place; the model returns the rest of
  the text as the third component.
\<close>

definition getParsedTypeAndSRI :: "string \<Rightarrow> error + (HashType option \<times> bool \<times> string)" where
  "getParsedTypeAndSRI rest =
     (case splitPrefixTo rest (CHR '':'') of
        Some (hashRaw, rest') \<Rightarrow>
          (case parseHashType hashRaw of Inl e \<Rightarrow> Inl e
           | Inr t \<Rightarrow> Inr (Some t, False, rest'))
      | None \<Rightarrow>
          (case splitPrefixTo rest (CHR ''-'') of
             Some (hashRaw, rest') \<Rightarrow>
               (case parseHashType hashRaw of Inl e \<Rightarrow> Inl e
                | Inr t \<Rightarrow> Inr (Some t, True, rest'))
           | None \<Rightarrow> Inr (None, False, rest)))"

text \<open>The lambda \<^verbatim>\<open>parseHexDigit\<close>; its result is an \<^verbatim>\<open>int\<close>.\<close>

definition parseHexDigit :: "char \<Rightarrow> error + u32" where
  "parseHexDigit c =
     (let v = (of_char c :: nat) in
      if of_char (CHR ''0'') \<le> v \<and> v \<le> of_char (CHR ''9'') then Inr (of_nat (v - of_char (CHR ''0'')))
      else if of_char (CHR ''A'') \<le> v \<and> v \<le> of_char (CHR ''F'') then Inr (of_nat (v - of_char (CHR ''A'') + 10))
      else if of_char (CHR ''a'') \<le> v \<and> v \<le> of_char (CHR ''f'') then Inr (of_nat (v - of_char (CHR ''a'') + 10))
      else Inl BadHashInvalidBase16)"

text \<open>The base-16 loop over \<open>i = 0, ..., hashSize - 1\<close>, given as the list of its counters.\<close>

fun parse16_loop :: "string \<Rightarrow> nat list \<Rightarrow> u8 list \<Rightarrow> error + u8 list" where
  "parse16_loop rest [] buf = Inr buf"
| "parse16_loop rest (i # ns) buf =
     (case parseHexDigit (rest ! (i * 2)) of
        Inl e \<Rightarrow> Inl e
      | Inr hi \<Rightarrow>
          (case parseHexDigit (rest ! (i * 2 + 1)) of
             Inl e \<Rightarrow> Inl e
           | Inr lo \<Rightarrow> parse16_loop rest ns (buf[i := ucast (push_bit 4 hi OR lo)])))"

text \<open>
  The inner loop of the base-32 branch: the first position of \<open>c\<close> in the alphabet, 32
  when there is none. \<^verbatim>\<open>digit\<close> is an \<^verbatim>\<open>unsigned char\<close>.
\<close>

definition find_digit :: "char \<Rightarrow> u8" where
  "find_digit c = of_nat (index_of base32Chars c)"

text \<open>
  The base-32 loop over \<open>n = 0, ..., rest.size() - 1\<close>. \<^verbatim>\<open>digit << j\<close> and
  \<^verbatim>\<open>digit >> (8 - j)\<close> are computed in \<^verbatim>\<open>int\<close> and cut to a byte by the assignment.
\<close>

fun parse32_loop :: "string \<Rightarrow> nat \<Rightarrow> nat list \<Rightarrow> u8 list \<Rightarrow> error + u8 list" where
  "parse32_loop rest hsize [] buf = Inr buf"
| "parse32_loop rest hsize (n # ns) buf =
     (let c = rest ! (length rest - n - 1);
          digit = find_digit c
      in if 32 \<le> digit then Inl BadHashInvalidBase32
         else
           let b = n * 5;
               i = b div 8;
               j = b mod 8;
               buf1 = buf[i := buf ! i OR ucast (push_bit j (ucast digit :: u32))]
           in if i < hsize - 1
              then parse32_loop rest hsize ns
                     (buf1[i + 1 := buf1 ! (i + 1) OR ucast (drop_bit (8 - j) (ucast digit :: u32))])
              else if drop_bit (8 - j) (ucast digit :: u32) \<noteq> 0 then Inl BadHashInvalidBase32
              else parse32_loop rest hsize ns buf1)"

text \<open>\<^verbatim>\<open>Hash::Hash(std::string_view rest, HashType type, bool isSRI)\<close>\<close>

definition Hash_parse :: "string \<Rightarrow> HashType \<Rightarrow> bool \<Rightarrow> error + Hash" where
  "Hash_parse rest t isSRI =
     (let h = Hash_init t in
      if \<not> isSRI \<and> length rest = base16Len h then
        (case parse16_loop rest [0..<hashSize h] (hash h) of
           Inl e \<Rightarrow> Inl e
         | Inr bytes \<Rightarrow> Inr (h\<lparr>hash := bytes\<rparr>))
      else if \<not> isSRI \<and> length rest = base32Len h then
        (case parse32_loop rest (hashSize h) [0..<length rest] (hash h) of
           Inl e \<Rightarrow> Inl e
         | Inr bytes \<Rightarrow> Inr (h\<lparr>hash := bytes\<rparr>))
      else if isSRI \<or> length rest = base64Len h then
        (case base64Decode rest of
           Inl e \<Rightarrow> Inl e
         | Inr d \<Rightarrow>
             if length d \<noteq> hashSize h
             then Inl (if isSRI then BadHashInvalidSRI else BadHashInvalidBase64)
             else Inr (h\<lparr>hash := d @ drop (hashSize h) (hash h)\<rparr>))
      else Inl BadHashWrongLength)"

definition parseAny :: "string \<Rightarrow> HashType option \<Rightarrow> error + Hash" where
  "parseAny original optType =
     (case getParsedTypeAndSRI original of
        Inl e \<Rightarrow> Inl e
      | Inr (optParsedType, isSRI, rest) \<Rightarrow>
          (case (optParsedType, optType) of
             (None, None) \<Rightarrow> Inl BadHashNoType
           | (Some pt, Some ot) \<Rightarrow>
               if pt \<noteq> ot then Inl BadHashTypeMismatch else Hash_parse rest pt isSRI
           | (Some pt, None) \<Rightarrow> Hash_parse rest pt isSRI
           | (None, Some ot) \<Rightarrow> Hash_parse rest ot isSRI))"

lemma regularHashSize_ge: "16 \<le> regularHashSize t"
  by (cases t) (simp_all add: md5HashSize_def sha1HashSize_def sha256HashSize_def sha512HashSize_def)

subsection \<open>Compression\<close>

text \<open>
  \<^verbatim>\<open>compressHash\<close>: the loop over \<open>i = 0, ..., hash.hashSize - 1\<close> xors byte \<open>i\<close> of the
  source into byte \<open>i % newSize\<close> of a zeroed Hash of the same type. With
  \<open>newSize = 0\<close> the first iteration divides by zero; with a source size beyond the
  buffer the loop reads past it.
\<close>

fun compress_loop :: "u8 list \<Rightarrow> nat \<Rightarrow> nat list \<Rightarrow> u8 list \<Rightarrow> u8 list" where
  "compress_loop src newSize [] dst = dst"
| "compress_loop src newSize (i # ns) dst =
     compress_loop src newSize ns (dst[i mod newSize := dst ! (i mod newSize) XOR src ! i])"

definition compressHash :: "Hash \<Rightarrow> nat \<Rightarrow> error + Hash" where
  "compressHash h newSize =
     (let h' = (Hash_init (type h))\<lparr>hashSize := newSize\<rparr> in
      if hashSize h = 0 then Inr h'
      else if newSize = 0 then Inl DivisionByZero
      else if maxHashSize < hashSize h then Inl BufferOverrun
      else Inr (h'\<lparr>hash := compress_loop (hash h) newSize [0..<hashSize h] (hash h')\<rparr>))"

section \<open>Path metadata\<close>

text \<open>
  Modelled from the spec: the types of \<^verbatim>\<open>path.hh\<close>, \<^verbatim>\<open>content-address.hh\<close> and
  \<^verbatim>\<open>path-info.hh\<close>, which are not among the sources. A store path is an opaque
  identifier (here its text); the file ingestion methods are Flat, NAR and Git; a
  content address is a method and a hash; a content address with references is a
  TextInfo or a FixedOutputInfo, whose references are a set of other paths and a
  self-reference flag.
\<close>

type_synonym StorePath = string

datatype FileIngestionMethod = Flat | NAR | Git

datatype ContentAddressMethod = TextIngestionMethod | FileIngestion FileIngestionMethod

datatype ContentAddress = ContentAddress (ca_method: ContentAddressMethod) (ca_hash: Hash)

record StoreReferences =
  others :: "StorePath set"
  self :: bool

datatype ContentAddressWithReferences =
    TextInfo Hash "StorePath set"
  | FixedOutputInfo FileIngestionMethod Hash StoreReferences

text \<open>
  \<^verbatim>\<open>sigs\<close> is a \<^verbatim>\<open>std::set<std::string>\<close> that the code only iterates over and inserts
  into: the model keeps its elements as the list the iteration visits.
  \<^verbatim>\<open>references\<close> is a \<^verbatim>\<open>std::set<StorePath>\<close> used through \<^verbatim>\<open>count\<close>, \<^verbatim>\<open>erase\<close> and
  \<^verbatim>\<open>insert\<close>: a set.
\<close>

record UnkeyedValidPathInfo =
  deriver :: "StorePath option"
  narHash :: Hash
  references :: "StorePath set"
  registrationTime :: int
  narSize :: "64 word"
  ultimate :: bool
  sigs :: "string list"
  ca :: "ContentAddress option"

record ValidPathInfo = UnkeyedValidPathInfo +
  path :: StorePath

text \<open>
  The collaborators, taken as parameters: the three operations of the store that
  \<^verbatim>\<open>path-info.cc\<close> calls, and \<^verbatim>\<open>StorePath::name\<close>. \<^verbatim>\<open>printStorePathSet\<close> returns the
  printed paths in the order in which \<^verbatim>\<open>concatStringsSep\<close> will visit them.
\<close>

record Store =
  printStorePath :: "StorePath \<Rightarrow> string"
  printStorePathSet :: "StorePath set \<Rightarrow> string list"
  makeFixedOutputPathFromCA :: "string \<Rightarrow> ContentAddressWithReferences \<Rightarrow> StorePath"
  pathName :: "StorePath \<Rightarrow> string"

text \<open>\<^verbatim>\<open>std::to_string\<close> of an unsigned number: its decimal digits.\<close>

function decimal :: "nat \<Rightarrow> string" where
  "decimal n =
     (if n < 10 then [''0123456789'' ! n]
      else decimal (n div 10) @ [''0123456789'' ! (n mod 10)])"
  by pat_completeness auto
termination
  by (relation "measure (\<lambda>n. n)") auto

definition to_string_u64 :: "64 word \<Rightarrow> string" where
  "to_string_u64 w = decimal (unat w)"

text \<open>
  Modelled from the spec: \<^verbatim>\<open>concatStringsSep\<close> lives in \<^verbatim>\<open>util.hh\<close>, which is not among
  the sources; the spec calls it \<open>join\<close>.
\<close>

fun concatStringsSep :: "string \<Rightarrow> string list \<Rightarrow> string" where
  "concatStringsSep sep [] = []"
| "concatStringsSep sep [x] = x"
| "concatStringsSep sep (x # y # zs) = x @ sep @ concatStringsSep sep (y # zs)"

definition fingerprint :: "Store \<Rightarrow> ValidPathInfo \<Rightarrow> error + string" where
  "fingerprint store v =
     (if narSize v = 0 then Inl NarSizeUnknown
      else case to_string (narHash v) Base32 True of
             Inl e \<Rightarrow> Inl e
           | Inr hs \<Rightarrow>
               Inr (''1;'' @ printStorePath store (path v) @ '';''
                    @ hs @ '';''
                    @ to_string_u64 (narSize v) @ '';''
                    @ concatStringsSep '','' (printStorePathSet store (references v))))"

definition contentAddressWithReferences ::
  "ValidPathInfo \<Rightarrow> error + ContentAddressWithReferences option" where
  "contentAddressWithReferences v =
     (case ca v of
        None \<Rightarrow> Inr None
      | Some c \<Rightarrow>
          (case ca_method c of
             TextIngestionMethod \<Rightarrow>
               if path v \<in> references v then Inl AssertionFailed
               else Inr (Some (TextInfo (ca_hash c) (references v)))
           | FileIngestion m2 \<Rightarrow>
               let refs = references v;
                   (hasSelfReference, refs) =
                     (if path v \<in> refs then (True, refs - {path v}) else (False, refs))
               in Inr (Some (FixedOutputInfo m2 (ca_hash c)
                               \<lparr> others = refs, self = hasSelfReference \<rparr>))))"

text \<open>\<^verbatim>\<open>isContentAddressed\<close>; the warning it prints on a mismatch is not part of the result.\<close>

definition isContentAddressed :: "Store \<Rightarrow> ValidPathInfo \<Rightarrow> error + bool" where
  "isContentAddressed store v =
     (case contentAddressWithReferences v of
        Inl e \<Rightarrow> Inl e
      | Inr None \<Rightarrow> Inr False
      | Inr (Some fullCa) \<Rightarrow>
          (let caPath = makeFixedOutputPathFromCA store (pathName store (path v)) fullCa
           in Inr (caPath = path v)))"

text \<open>
  \<^verbatim>\<open>checkSignature\<close>; \<^verbatim>\<open>verifyDetached\<close> belongs to the signature primitive and is a
  parameter.
\<close>

definition checkSignature ::
  "(string \<Rightarrow> string \<Rightarrow> 'k \<Rightarrow> bool) \<Rightarrow> Store \<Rightarrow> 'k \<Rightarrow> string \<Rightarrow> ValidPathInfo \<Rightarrow> error + bool" where
  "checkSignature verifyDetached store publicKeys sig v =
     (case fingerprint store v of
        Inl e \<Rightarrow> Inl e
      | Inr fp \<Rightarrow> Inr (verifyDetached fp sig publicKeys))"

text \<open>The loop of \<^verbatim>\<open>checkSignatures\<close> over the signatures, with its counter \<open>good\<close>.\<close>

fun checkSignatures_loop ::
  "(string \<Rightarrow> string \<Rightarrow> 'k \<Rightarrow> bool) \<Rightarrow> Store \<Rightarrow> 'k \<Rightarrow> ValidPathInfo \<Rightarrow> string list \<Rightarrow> nat
     \<Rightarrow> error + nat" where
  "checkSignatures_loop verifyDetached store publicKeys v [] good = Inr good"
| "checkSignatures_loop verifyDetached store publicKeys v (sig # rest) good =
     (case checkSignature verifyDetached store publicKeys sig v of
        Inl e \<Rightarrow> Inl e
      | Inr ok \<Rightarrow>
          checkSignatures_loop verifyDetached store publicKeys v rest
            (if ok then good + 1 else good))"

text \<open>
  \<^verbatim>\<open>checkSignatures\<close>; the constant \<^verbatim>\<open>maxSigs\<close> of \<^verbatim>\<open>path-info.hh\<close> is a parameter.
\<close>

definition checkSignatures ::
  "nat \<Rightarrow> (string \<Rightarrow> string \<Rightarrow> 'k \<Rightarrow> bool) \<Rightarrow> Store \<Rightarrow> 'k \<Rightarrow> ValidPathInfo \<Rightarrow> error + nat" where
  "checkSignatures maxSigs verifyDetached store publicKeys v =
     (case isContentAddressed store v of
        Inl e \<Rightarrow> Inl e
      | Inr True \<Rightarrow> Inr maxSigs
      | Inr False \<Rightarrow> checkSignatures_loop verifyDetached store publicKeys v (sigs v) 0)"

text \<open>
  The keyed constructor \<^verbatim>\<open>ValidPathInfo(store, name, ca, narHash)\<close>. The base
  constructor \<^verbatim>\<open>UnkeyedValidPathInfo(narHash)\<close> is modelled from the spec (it is declared
  in \<^verbatim>\<open>path-info.hh\<close>): the hash it is given and default zero fields.
\<close>

definition UnkeyedValidPathInfo_init :: "Hash \<Rightarrow> UnkeyedValidPathInfo" where
  "UnkeyedValidPathInfo_init h =
     \<lparr> deriver = None, narHash = h, references = {}, registrationTime = 0, narSize = 0,
       ultimate = False, sigs = [], ca = None \<rparr>"

definition ValidPathInfo_init ::
  "Store \<Rightarrow> string \<Rightarrow> ContentAddressWithReferences \<Rightarrow> Hash \<Rightarrow> ValidPathInfo" where
  "ValidPathInfo_init store name car h =
     (let p = makeFixedOutputPathFromCA store name car;
          this = UnkeyedValidPathInfo.extend (UnkeyedValidPathInfo_init h) (ValidPathInfo.fields p)
      in case car of
           TextInfo ti_hash ti_references \<Rightarrow>
             this\<lparr> references := ti_references,
                   ca := Some (ContentAddress TextIngestionMethod ti_hash) \<rparr>
         | FixedOutputInfo foi_method foi_hash foi_references \<Rightarrow>
             (let this1 = this\<lparr> references := others foi_references \<rparr>;
                  this2 = (if self foi_references
                           then this1\<lparr> references := insert (path this1) (references this1) \<rparr>
                           else this1)
              in this2\<lparr> ca := Some (ContentAddress (FileIngestion foi_method) foi_hash) \<rparr>))"

section \<open>The base-32 decoding, as the spec words it\<close>

text \<open>
  For comparison with \<open>parse32_loop\<close>: the spec reads the body from right to left, the
  character at distance \<open>k\<close> from the end being the 5-bit digit \<open>d\<close> at bit offset
  \<open>b = 5k\<close>, with \<open>i = b div 8\<close> and \<open>j = b mod 8\<close>; the digit gives \<open>d << j\<close> to byte \<open>i\<close>
  and, if \<open>i + 1 < n\<close>, \<open>d >> (8 - j)\<close> to byte \<open>i + 1\<close>. \<open>spec_base32_contribution\<close> is what
  digit \<open>k\<close> gives to byte \<open>m\<close>, \<open>spec_base32_bytes\<close> is the buffer in which every byte is
  the bitwise or of what the digits give to it.
\<close>

definition spec_base32_digit :: "string \<Rightarrow> nat \<Rightarrow> u8" where
  "spec_base32_digit rest k = of_nat (index_of base32Chars (rest ! (length rest - 1 - k)))"

definition spec_base32_contribution :: "nat \<Rightarrow> string \<Rightarrow> nat \<Rightarrow> nat \<Rightarrow> u8" where
  "spec_base32_contribution n rest k m =
     (let d = spec_base32_digit rest k; b = k * 5; i = b div 8; j = b mod 8
      in (if m = i then push_bit j d else 0)
         OR (if m = i + 1 \<and> i + 1 < n then drop_bit (8 - j) d else 0))"

definition spec_base32_bytes :: "nat \<Rightarrow> string \<Rightarrow> u8 list" where
  "spec_base32_bytes n rest =
     map (\<lambda>m. foldr (\<lambda>k a. spec_base32_contribution n rest k m OR a) [0..<length rest] 0)
         [0..<maxHashSize]"

text \<open>
  The body is invalid when a character is outside the alphabet, or when a digit has
  high bits \<open>d >> (8 - j)\<close> that are not zero where \<open>i + 1\<close> is the given index \<open>e\<close>. The
  spec's sentence puts the check at \<open>i + 1 = n - 1\<close>; the last byte is \<open>i + 1 = n\<close>.
\<close>

definition spec_base32_invalid :: "nat \<Rightarrow> string \<Rightarrow> bool" where
  "spec_base32_invalid e rest =
     list_ex (\<lambda>k. let d = spec_base32_digit rest k; b = k * 5; i = b div 8; j = b mod 8
                   in 32 \<le> d \<or> (i + 1 = e \<and> drop_bit (8 - j) d \<noteq> 0))
             [0..<length rest]"

text \<open>Whether the body of \<open>parse32_loop\<close> throws at counter \<open>k\<close>.\<close>

definition parse32_rejects :: "nat \<Rightarrow> string \<Rightarrow> nat \<Rightarrow> bool" where
  "parse32_rejects hsize rest k =
     (let digit = find_digit (rest ! (length rest - k - 1)); i = k * 5 div 8; j = k * 5 mod 8
      in 32 \<le> digit \<or> (\<not> i < hsize - 1 \<and> drop_bit (8 - j) (ucast digit :: u32) \<noteq> 0))"

section \<open>Example values\<close>

text \<open>The SHA-256 digest of the text \<open>abc\<close>, and a 16-byte MD5 value.\<close>

definition sha256_abc :: Hash where
  "sha256_abc =
     \<lparr> hashSize = 32,
       hash = [0xba, 0x78, 0x16, 0xbf, 0x8f, 0x01, 0xcf, 0xea, 0x41, 0x41, 0x40, 0xde, 0x5d, 0xae,
               0x22, 0x23, 0xb0, 0x03, 0x61, 0xa3, 0x96, 0x17, 0x7a, 0x9c, 0xb4, 0x10, 0xff, 0x61,
               0xf2, 0x00, 0x15, 0xad] @ replicate 32 0,
       type = htSHA256 \<rparr>"

definition md5_example :: Hash where
  "md5_example =
     \<lparr> hashSize = 16,
       hash = [0x90, 0x01, 0x50, 0x98, 0x3c, 0xd2, 0x4f, 0xb0, 0xd6, 0x96, 0x3f, 0x7d, 0x28, 0xe1,
               0x7f, 0x72] @ replicate 48 0,
       type = htMD5 \<rparr>"

text \<open>
  A toy store that prints a path under \<open>/nix/store/\<close>, knows three paths and their
  order, and derives the path \<open>b-name\<close> for every content address; a path record; and a
  toy verifier that accepts a signature when the key name before its colon is known.
\<close>

definition store0 :: Store where
  "store0 = \<lparr> printStorePath = (\<lambda>p. ''/nix/store/'' @ p),
              printStorePathSet = (\<lambda>ps. map (\<lambda>p. ''/nix/store/'' @ p) (filter (\<lambda>p. p \<in> ps) [''a-dep'', ''b-pkg'', ''c-lib''])),
              makeFixedOutputPathFromCA = (\<lambda>name car. ''b-'' @ name),
              pathName = drop 2 \<rparr>"

definition info0 :: ValidPathInfo where
  "info0 = \<lparr> deriver = None, narHash = sha256_abc, references = {''a-dep'', ''b-pkg''},
             registrationTime = 0, narSize = 1203, ultimate = False, sigs = [''k1:good'', ''k2:bad'', ''k3:good''],
             ca = None, path = ''b-pkg'' \<rparr>"

definition verify0 :: "string \<Rightarrow> string \<Rightarrow> string list \<Rightarrow> bool" where
  "verify0 msg sig keys = (msg \<noteq> [] \<and> takeWhile (\<lambda>c. c \<noteq> CHR '':'') sig \<in> set keys)"

section \<open>Properties of the hash layer\<close>

subsection \<open>Sizes\<close>

lemma regularHashSize_le: "regularHashSize t \<le> maxHashSize"
  by (cases t) (simp_all add: md5HashSize_def sha1HashSize_def sha256HashSize_def sha512HashSize_def maxHashSize_def)

lemma regularHashSize_pos: "1 \<le> regularHashSize t"
  by (cases t) (simp_all add: md5HashSize_def sha1HashSize_def sha256HashSize_def sha512HashSize_def)

subsection \<open>Compression\<close>

lemma length_compress_loop [simp]: "length (compress_loop src newSize ns dst) = length dst"
  by (induction ns arbitrary: dst) simp_all

lemma compress_loop_outside:
  "0 < newSize \<Longrightarrow> newSize \<le> k \<Longrightarrow> compress_loop src newSize ns dst ! k = dst ! k"
proof (induction ns arbitrary: dst)
  case Nil
  then show ?case by simp
next
  case (Cons i ns)
  have "i mod newSize < newSize" using Cons.prems(1) by simp
  then have "i mod newSize \<noteq> k" using Cons.prems(2) by linarith
  then show ?case using Cons by simp
qed

lemma compress_loop_inside:
  "\<forall>i \<in> set ns. i < newSize \<Longrightarrow> distinct ns \<Longrightarrow> k < length dst \<Longrightarrow>
   compress_loop src newSize ns dst ! k = (if k \<in> set ns then dst ! k XOR src ! k else dst ! k)"
proof (induction ns arbitrary: dst)
  case Nil
  then show ?case by simp
next
  case (Cons i ns)
  have ik: "k \<in> set ns \<Longrightarrow> i \<noteq> k" using Cons.prems(2) by auto
  have im: "i mod newSize = i" using Cons.prems(1) by simp
  have "compress_loop src newSize (i # ns) dst ! k
        = compress_loop src newSize ns (dst[i := dst ! i XOR src ! i]) ! k"
    by (simp add: im)
  also have "\<dots> = (if k \<in> set ns then dst[i := dst ! i XOR src ! i] ! k XOR src ! k
                     else dst[i := dst ! i XOR src ! i] ! k)"
    using Cons.IH [of "dst[i := dst ! i XOR src ! i]"] Cons.prems by simp
  finally show ?case using ik Cons.prems(3) by (auto simp: nth_list_update)
qed


text \<open>
  C9: for a Hash whose size is the regular size of its type, compressing to its own size
  succeeds and gives a Hash that \<open>==\<close> finds equal to the source, of the same type and
  size, whose bytes beyond the size are zero; it is the source itself exactly when the
  source's bytes beyond the size are zero.
\<close>

theorem compressHash_identity:
  assumes len: "length (hash h) = maxHashSize"
      and reg: "hashSize h = regularHashSize (type h)"
  shows "\<exists>h'. compressHash h (hashSize h) = Inr h'
           \<and> Hash_eq h' h \<and> type h' = type h \<and> hashSize h' = hashSize h
           \<and> list_all (\<lambda>i. hash h' ! i = 0) [hashSize h..<maxHashSize]
           \<and> (if list_all (\<lambda>i. hash h ! i = 0) [hashSize h..<maxHashSize] then h' = h else h' \<noteq> h)"
proof -
  define n where "n = hashSize h"
  have n1: "1 \<le> n" and n64: "n \<le> maxHashSize"
    using regularHashSize_pos [of "type h"] regularHashSize_le [of "type h"] reg
    by (simp_all add: n_def)
  define bytes where
    "bytes = compress_loop (hash h) n [0..<n] (replicate maxHashSize 0)"
  define h' where "h' = \<lparr> hashSize = n, hash = bytes, type = type h \<rparr>"
  have run: "compressHash h (hashSize h) = Inr h'"
    using n1 n64 by (simp add: compressHash_def Hash_init_def h'_def bytes_def n_def Let_def)
  have lenb: "length bytes = maxHashSize" by (simp add: bytes_def)
  have nth: "bytes ! k = (if k < n then hash h ! k else 0)" if "k < maxHashSize" for k
    using compress_loop_inside [of "[0..<n]" n k "replicate maxHashSize 0" "hash h"] that
    by (simp add: bytes_def)
  have eq: "Hash_eq h' h"
    using nth n64 by (simp add: Hash_eq_def h'_def n_def list_all_iff)
  have zeros: "list_all (\<lambda>i. hash h' ! i = 0) [hashSize h..<maxHashSize]"
    using nth by (simp add: h'_def n_def list_all_iff)
  have same: "h' = h" if "list_all (\<lambda>i. hash h ! i = 0) [hashSize h..<maxHashSize]"
  proof -
    have "bytes = hash h"
    proof (rule nth_equalityI)
      show "length bytes = length (hash h)" by (simp add: lenb len)
    next
      fix i assume "i < length bytes"
      then have i: "i < maxHashSize" by (simp add: lenb)
      show "bytes ! i = hash h ! i"
        using nth [OF i] that i by (auto simp: list_all_iff n_def)
    qed
    then show ?thesis by (simp add: h'_def n_def)
  qed
  have diff: "h' \<noteq> h" if "\<not> list_all (\<lambda>i. hash h ! i = 0) [hashSize h..<maxHashSize]"
  proof
    assume "h' = h"
    then have "hash h = hash h'" by simp
    with zeros that show False by simp
  qed
  have flds: "type h' = type h" "hashSize h' = hashSize h"
    by (simp_all add: h'_def n_def)
  show ?thesis
    using run eq zeros same diff flds by (intro exI [of _ h']) simp
qed

theorem compressHash_identity_witness:
  "length (hash sha256_abc) = maxHashSize \<and> hashSize sha256_abc = regularHashSize (type sha256_abc)
   \<and> compressHash sha256_abc 32 = Inr sha256_abc"
proof -
  have len: "length (hash sha256_abc) = maxHashSize"
    by (simp add: sha256_abc_def maxHashSize_def)
  have reg: "hashSize sha256_abc = regularHashSize (type sha256_abc)"
    by (simp add: sha256_abc_def sha256HashSize_def)
  have z: "list_all (\<lambda>i. hash sha256_abc ! i = 0) [hashSize sha256_abc..<maxHashSize]"
    by (simp add: sha256_abc_def maxHashSize_def list_all_iff nth_append)
  have s: "hashSize sha256_abc = 32" by (simp add: sha256_abc_def)
  show ?thesis
    using compressHash_identity [OF len reg] len reg z s by auto
qed

text \<open>
  C10: for a Hash that meets the data model's bounds, compressing to a size of at least
  1 succeeds and gives a Hash of the same type, of the new size, whose bytes from the
  new size on are zero; compressing to size 0 does not return a Hash: the first
  iteration takes a remainder by zero.
\<close>

theorem compressHash_total:
  assumes inv: "Hash_inv h"
  shows "(if 1 \<le> newSize
          then \<exists>h'. compressHash h newSize = Inr h' \<and> type h' = type h \<and> hashSize h' = newSize
                 \<and> length (hash h') = maxHashSize
                 \<and> list_all (\<lambda>i. hash h' ! i = 0) [newSize..<maxHashSize]
          else compressHash h newSize = Inl DivisionByZero)"
proof (cases "1 \<le> newSize")
  case True
  have "list_all (\<lambda>i. compress_loop (hash h) newSize [0..<hashSize h] (replicate maxHashSize 0) ! i = 0)
          [newSize..<maxHashSize]"
    using True by (simp add: list_all_iff compress_loop_outside)
  then show ?thesis
    using True inv by (simp add: compressHash_def Hash_inv_def Hash_init_def Let_def)
next
  case False
  then show ?thesis
    using inv by (simp add: compressHash_def Hash_inv_def Let_def)
qed

theorem compressHash_total_witness:
  "Hash_inv sha256_abc
   \<and> (\<exists>h'. compressHash sha256_abc 20 = Inr h' \<and> type h' = htSHA256 \<and> hashSize h' = 20
          \<and> length (hash h') = maxHashSize
          \<and> list_all (\<lambda>i. hash h' ! i = 0) [20..<maxHashSize])
   \<and> compressHash sha256_abc 0 = Inl DivisionByZero"
proof -
  have inv: "Hash_inv sha256_abc"
    by (simp add: Hash_inv_def sha256_abc_def maxHashSize_def)
  have t: "type sha256_abc = htSHA256" by (simp add: sha256_abc_def)
  show ?thesis
    using compressHash_total [OF inv, of 20] compressHash_total [OF inv, of 0] inv t by simp
qed

subsection \<open>Rendering in base-32\<close>

lemma mask5_nat: "(0x1f::nat) = mask 5" by (simp add: mask_eq_exp_minus_1)
lemma mask5_u8: "(0x1f::u8) = mask 5" by (simp add: mask_eq_exp_minus_1)

lemma bit_u8_low5: "bit ((c::u8) AND 0x1f) t = (t < 5 \<and> bit c t)"
  unfolding mask5_u8 by (auto simp add: bit_simps)

lemma bit_print_byte:
  "bit (ucast (drop_bit j (ucast (x::u8) :: u32) OR push_bit (8 - j) (ucast (y::u8) :: u32)) :: u8) t
   = (t < 8 \<and> (bit x (t + j) \<or> (8 - j \<le> t \<and> bit y (t - (8 - j)))))"
  by (auto simp add: bit_simps ac_simps dest: bit_imp_le_length)

lemma bit_print_byte0:
  "bit (ucast (drop_bit j (ucast (x::u8) :: u32) OR 0) :: u8) t = bit x (t + j)"
  by (auto simp add: bit_simps ac_simps dest: bit_imp_le_length)

lemma unat_print_digit:
  "unat ((ucast (drop_bit j (ucast (x::u8) :: u32) OR push_bit (8 - j) (ucast (y::u8) :: u32)) :: u8) AND 0x1f)
   = (drop_bit j (unat x) OR push_bit (8 - j) (unat y)) AND 0x1F"
  unfolding mask5_u8 mask5_nat
  apply (rule bit_eqI)
  apply (auto simp add: bit_simps unsigned_and_eq unsigned_or_eq bit_unsigned_iff ac_simps dest: bit_imp_le_length)
  done


lemma printHash32_char_nat:
  assumes "1 \<le> hashSize h"
  shows "printHash32_char h k =
     base32Chars ! ((drop_bit (k * 5 mod 8) (unat (hash h ! (k * 5 div 8)))
                     OR push_bit (8 - k * 5 mod 8)
                          (if hashSize h \<le> k * 5 div 8 + 1 then 0
                           else unat (hash h ! (k * 5 div 8 + 1))))
                    AND 0x1F)"
proof (cases "hashSize h \<le> k * 5 div 8 + 1")
  case True
  then have c: "hashSize h - 1 \<le> k * 5 div 8" by simp
  show ?thesis
    using unat_print_digit [of "k * 5 mod 8" "hash h ! (k * 5 div 8)" 0] True c
    by (simp add: printHash32_char_def printHash32_digit_def Let_def)
next
  case False
  then have c: "\<not> hashSize h - 1 \<le> k * 5 div 8" using assms by simp
  show ?thesis
    using unat_print_digit [of "k * 5 mod 8" "hash h ! (k * 5 div 8)" "hash h ! (k * 5 div 8 + 1)"]
      False c
    by (simp add: printHash32_char_def printHash32_digit_def Let_def)
qed

lemma base32Len_pos: "1 \<le> hashSize h \<Longrightarrow> 0 < base32Len h"
  unfolding base32Len_def by arith

text \<open>
  C2: for a Hash within the data model's bounds, of size \<open>n\<close>, the base-32 rendering has
  length \<open>L\<close>, the ceiling of \<open>8n/5\<close>, and for every \<open>k < L\<close>, with \<open>p = 5k\<close>, \<open>i = p div 8\<close>
  and \<open>j = p mod 8\<close>, the character at position \<open>L - 1 - k\<close> is the character of the
  alphabet at index \<open>((bytes[i] >> j) | (bytes[i+1] << (8 - j))) & 0x1F\<close>, computed on
  unbounded numbers, where \<open>bytes[i+1]\<close> counts as 0 when \<open>i + 1 \<ge> n\<close>; the alphabet is
  \<open>0123456789abcdfghijklmnpqrsvwxyz\<close>.
\<close>

theorem printHash32_spec:
  assumes inv: "Hash_inv h"
  shows "\<exists>s. printHash32 h = Inr s
           \<and> length s = (8 * hashSize h + 4) div 5
           \<and> (\<forall>k < length s.
                 s ! (length s - 1 - k) =
                   base32Chars ! ((drop_bit (k * 5 mod 8) (unat (hash h ! (k * 5 div 8)))
                                   OR push_bit (8 - k * 5 mod 8)
                                        (if hashSize h \<le> k * 5 div 8 + 1 then 0
                                         else unat (hash h ! (k * 5 div 8 + 1))))
                                  AND 0x1F))
           \<and> base32Chars = ''0123456789abcdfghijklmnpqrsvwxyz''"
proof -
  define L where "L = base32Len h"
  define s where "s = map (printHash32_char h) (rev [0..<L])"
  have n1: "1 \<le> hashSize h" and n64: "hashSize h \<le> maxHashSize"
    using inv by (simp_all add: Hash_inv_def)
  have run: "printHash32 h = Inr s"
    using n1 n64 base32Len_pos [OF n1] by (simp add: printHash32_def s_def L_def)
  have len: "length s = (8 * hashSize h + 4) div 5"
    by (simp add: s_def L_def base32Len_def mult.commute)
  have nth: "s ! (length s - 1 - k) = printHash32_char h k" if "k < length s" for k
  proof -
    have kL: "k < L" using that by (simp add: s_def)
    then have "rev [0..<L] ! (L - 1 - k) = k"
      by (simp add: rev_nth)
    then show ?thesis using kL by (simp add: s_def)
  qed
  show ?thesis
    using run len nth printHash32_char_nat [OF n1] by (simp add: base32Chars_def)
qed


theorem printHash32_spec_witness:
  "Hash_inv sha256_abc
   \<and> (\<exists>s. printHash32 sha256_abc = Inr s \<and> length s = 52
          \<and> s ! 51 = CHR ''s'' \<and> s ! 0 = CHR ''1'')"
proof -
  have inv: "Hash_inv sha256_abc"
    by (simp add: Hash_inv_def sha256_abc_def maxHashSize_def)
  obtain s where r: "printHash32 sha256_abc = Inr s"
    and l: "length s = (8 * hashSize sha256_abc + 4) div 5"
    and c: "\<forall>k < length s.
                 s ! (length s - 1 - k) =
                   base32Chars ! ((drop_bit (k * 5 mod 8) (unat (hash sha256_abc ! (k * 5 div 8)))
                                   OR push_bit (8 - k * 5 mod 8)
                                        (if hashSize sha256_abc \<le> k * 5 div 8 + 1 then 0
                                         else unat (hash sha256_abc ! (k * 5 div 8 + 1))))
                                  AND 0x1F)"
    using printHash32_spec [OF inv] by blast
  have l52: "length s = 52" using l by (simp add: sha256_abc_def)
  have a: "s ! 51 = CHR ''s''"
    using c [rule_format, of 0] l52 by (simp add: sha256_abc_def base32Chars_def)
  have b: "s ! 0 = CHR ''1''"
    using c [rule_format, of 51] l52 by (simp add: sha256_abc_def base32Chars_def)
  show ?thesis using inv r l52 a b by blast
qed

subsection \<open>Parsing base-32\<close>

lemma ucast_push_u32: "(ucast (push_bit j (ucast (d::u8) :: u32)) :: u8) = push_bit j d"
  by (rule bit_word_eqI) (auto simp add: bit_simps)

lemma ucast_drop_u32: "(ucast (drop_bit j (ucast (d::u8) :: u32)) :: u8) = drop_bit j d"
  by (rule bit_word_eqI) (auto simp add: bit_simps ac_simps dest: bit_imp_le_length)

lemma ucast_u32_eq_0: "((ucast (w::u8) :: u32) = 0) = (w = 0)"
proof
  assume z: "(ucast w :: u32) = 0"
  have "\<not> bit w n" for n
  proof (cases "n < 8")
    case True
    have "bit (ucast w :: u32) n = bit w n" using True by (simp add: bit_simps)
    with z show ?thesis by simp
  next
    case False
    then show ?thesis by (auto dest: bit_imp_le_length)
  qed
  then show "w = 0" by (simp add: bit_eq_iff)
qed simp

lemma drop_u32_zero: "(drop_bit j (ucast (d::u8) :: u32) = 0) = (drop_bit j d = 0)"
proof -
  have "drop_bit j (ucast d :: u32) = ucast (drop_bit j d)"
    by (rule bit_word_eqI) (auto simp add: bit_simps ac_simps dest: bit_imp_le_length)
  then show ?thesis by (simp add: ucast_u32_eq_0)
qed

lemma spec_base32_digit_eq:
  "find_digit (rest ! (length rest - k - 1)) = spec_base32_digit rest k"
  by (simp add: find_digit_def spec_base32_digit_def diff_commute)

lemma spec_base32_digit_eq':
  "find_digit (rest ! (length rest - Suc k)) = spec_base32_digit rest k"
  using spec_base32_digit_eq [of rest k] by simp

lemma parse32_loop_fail:
  "list_ex (parse32_rejects n rest) ks \<Longrightarrow> parse32_loop rest n ks buf = Inl BadHashInvalidBase32"
proof (induction ks arbitrary: buf)
  case Nil
  then show ?case by simp
next
  case (Cons k ks)
  show ?case
  proof (cases "parse32_rejects n rest k")
    case True
    then show ?thesis by (auto simp: parse32_rejects_def Let_def)
  next
    case False
    then have "list_ex (parse32_rejects n rest) ks" using Cons.prems by simp
    then show ?thesis
      using Cons.IH by (simp add: Let_def)
  qed
qed

lemma parse32_loop_ok:
  assumes "1 \<le> n"
  shows "\<not> list_ex (parse32_rejects n rest) ks \<Longrightarrow>
     \<exists>buf'. parse32_loop rest n ks buf = Inr buf' \<and> length buf' = length buf
        \<and> (\<forall>m < length buf.
              buf' ! m = buf ! m OR foldr (\<lambda>k a. spec_base32_contribution n rest k m OR a) ks 0)"
proof (induction ks arbitrary: buf)
  case Nil
  then show ?case by simp
next
  case (Cons k ks)
  define d where "d = find_digit (rest ! (length rest - k - 1))"
  define i where "i = k * 5 div 8"
  define j where "j = k * 5 mod 8"
  define buf1 where "buf1 = buf[i := buf ! i OR push_bit j d]"
  define buf2 where
    "buf2 = (if i < n - 1 then buf1[i + 1 := buf1 ! (i + 1) OR drop_bit (8 - j) d] else buf1)"
  have nrej: "\<not> parse32_rejects n rest k" and rest: "\<not> list_ex (parse32_rejects n rest) ks"
    using Cons.prems by simp_all
  have d32: "\<not> 32 \<le> d" and hi: "i < n - 1 \<or> drop_bit (8 - j) (ucast d :: u32) = 0"
    using nrej by (auto simp: parse32_rejects_def Let_def d_def i_def j_def)
  have step: "parse32_loop rest n (k # ks) buf = parse32_loop rest n ks buf2"
    using d32 hi unfolding buf2_def buf1_def d_def i_def j_def
    by (auto simp add: Let_def ucast_push_u32 ucast_drop_u32)
  have len2: "length buf2 = length buf" by (simp add: buf2_def buf1_def)
  have dd: "spec_base32_digit rest k = d"
    unfolding d_def by (rule spec_base32_digit_eq [symmetric])
  have nth2: "buf2 ! m = buf ! m OR spec_base32_contribution n rest k m" if m: "m < length buf" for m
  proof -
    have c: "spec_base32_contribution n rest k m =
             (if m = i then push_bit j d else 0)
             OR (if m = i + 1 \<and> i + 1 < n then drop_bit (8 - j) d else 0)"
      by (simp add: spec_base32_contribution_def Let_def dd i_def j_def)
    have in1: "(i + 1 < n) = (i < n - 1)" using assms by arith
    consider "m = i" | "m = i + 1" | "m \<noteq> i" "m \<noteq> i + 1" by blast
    then show ?thesis
    proof cases
      case 1
      then have "buf2 ! m = buf ! m OR push_bit j d"
        using m by (simp add: buf2_def buf1_def)
      then show ?thesis using 1 c by simp
    next
      case 2
      then have b1: "buf1 ! m = buf ! m" by (simp add: buf1_def)
      have l1: "m < length buf1" using m by (simp add: buf1_def)
      have "buf2 ! m = (if i < n - 1 then buf ! m OR drop_bit (8 - j) d else buf ! m)"
        using 2 b1 l1 by (simp add: buf2_def)
      then show ?thesis using 2 c in1 by simp
    next
      case 3
      then have "buf2 ! m = buf ! m" by (simp add: buf2_def buf1_def)
      then show ?thesis using 3 c by simp
    qed
  qed
  obtain buf' where r: "parse32_loop rest n ks buf2 = Inr buf'" and l: "length buf' = length buf2"
    and v: "\<forall>m < length buf2.
              buf' ! m = buf2 ! m OR foldr (\<lambda>k a. spec_base32_contribution n rest k m OR a) ks 0"
    using Cons.IH [OF rest, of buf2] by blast
  have "\<forall>m < length buf.
          buf' ! m = buf ! m OR foldr (\<lambda>k a. spec_base32_contribution n rest k m OR a) (k # ks) 0"
    using v nth2 len2 by (simp add: ac_simps)
  then show ?case using step r l len2 by simp
qed


lemma parse32_rejects_spec:
  assumes "1 \<le> n" and "k < (n * 8 + 4) div 5"
  shows "parse32_rejects n rest k =
     (let d = spec_base32_digit rest k; b = k * 5; i = b div 8; j = b mod 8
      in 32 \<le> d \<or> (i + 1 = n \<and> drop_bit (8 - j) d \<noteq> 0))"
proof -
  have "(\<not> k * 5 div 8 < n - 1) = (k * 5 div 8 + 1 = n)"
    using assms by arith
  then show ?thesis
    by (simp add: parse32_rejects_def Let_def drop_u32_zero spec_base32_digit_eq')
qed

lemma Hash_parse_base32_run:
  assumes len: "length rest = base32Len (Hash_init t)"
  shows "Hash_parse rest t False =
     (if spec_base32_invalid (regularHashSize t) rest then Inl BadHashInvalidBase32
      else Inr \<lparr> hashSize = regularHashSize t,
                 hash = spec_base32_bytes (regularHashSize t) rest,
                 type = t \<rparr>)"
proof -
  define n where "n = regularHashSize t"
  have n16: "16 \<le> n" and n64: "n \<le> maxHashSize"
    using regularHashSize_ge [of t] regularHashSize_le [of t] by (simp_all add: n_def)
  then have n1: "1 \<le> n" by simp
  have L: "length rest = (n * 8 + 4) div 5"
    using len by (simp add: base32Len_def Hash_init_def n_def)
  have not16: "length rest \<noteq> base16Len (Hash_init t)"
    using L n16 by (simp add: base16Len_def Hash_init_def n_def[symmetric])
  have branch: "Hash_parse rest t False =
      (case parse32_loop rest n [0..<length rest] (replicate maxHashSize 0) of
         Inl e \<Rightarrow> Inl e
       | Inr bytes \<Rightarrow> Inr \<lparr> hashSize = n, hash = bytes, type = t \<rparr>)"
    using not16 len by (simp add: Hash_parse_def Let_def Hash_init_def n_def split: sum.splits)
  have inv: "spec_base32_invalid n rest = list_ex (parse32_rejects n rest) [0..<length rest]"
    unfolding spec_base32_invalid_def list_ex_iff
    using parse32_rejects_spec [OF n1, of _ rest] L by auto
  show ?thesis
  proof (cases "spec_base32_invalid n rest")
    case True
    then show ?thesis
      using parse32_loop_fail [of n rest "[0..<length rest]" "replicate maxHashSize 0"] inv branch
      by (simp add: n_def)
  next
    case False
    then have ok: "\<not> list_ex (parse32_rejects n rest) [0..<length rest]" using inv by simp
    obtain buf' where r: "parse32_loop rest n [0..<length rest] (replicate maxHashSize 0) = Inr buf'"
      and l: "length buf' = maxHashSize"
      and v: "\<forall>m < maxHashSize.
              buf' ! m = foldr (\<lambda>k a. spec_base32_contribution n rest k m OR a) [0..<length rest] 0"
      using parse32_loop_ok [OF n1 ok, of "replicate maxHashSize 0"] by auto
    have "buf' = spec_base32_bytes n rest"
      by (rule nth_equalityI) (simp_all add: l v spec_base32_bytes_def)
    then show ?thesis using False branch r by (simp add: n_def)
  qed
qed

text \<open>
  C3, as the code has it: for a body of the base-32 length of the type, parsing fails
  with the invalid-base-32 error exactly when a character is outside the alphabet or a
  digit at the last byte, \<open>i + 1 = n\<close>, has high bits \<open>d >> (8 - j)\<close> that are not zero;
  otherwise it returns the Hash of the type and its regular size in which every byte is
  the bitwise or of \<open>d << j\<close> for the digits with byte index \<open>i\<close> and of \<open>d >> (8 - j)\<close> for
  the digits with byte index \<open>i + 1 < n\<close>.
\<close>

theorem Hash_parse_base32:
  assumes len: "length rest = base32Len (Hash_init t)"
  shows "Hash_parse rest t False =
     (if spec_base32_invalid (regularHashSize t) rest then Inl BadHashInvalidBase32
      else Inr \<lparr> hashSize = regularHashSize t,
                 hash = spec_base32_bytes (regularHashSize t) rest,
                 type = t \<rparr>)"
  using len by (rule Hash_parse_base32_run)

theorem Hash_parse_base32_witness:
  "length ''1b8m03r63zqhnjf7l5wnldhh7c134ap5vpj0850ymkq1iyzicy5s'' = base32Len (Hash_init htSHA256)
   \<and> Hash_parse ''1b8m03r63zqhnjf7l5wnldhh7c134ap5vpj0850ymkq1iyzicy5s'' htSHA256 False = Inr sha256_abc
   \<and> length ''z0000000000000000000000000'' = base32Len (Hash_init htMD5)
   \<and> Hash_parse ''z0000000000000000000000000'' htMD5 False = Inl BadHashInvalidBase32"
proof -
  have l1: "length ''1b8m03r63zqhnjf7l5wnldhh7c134ap5vpj0850ymkq1iyzicy5s'' = base32Len (Hash_init htSHA256)"
    by (simp add: base32Len_def Hash_init_def sha256HashSize_def)
  have l2: "length ''z0000000000000000000000000'' = base32Len (Hash_init htMD5)"
    by (simp add: base32Len_def Hash_init_def md5HashSize_def)
  have v1: "\<not> spec_base32_invalid (regularHashSize htSHA256)
                ''1b8m03r63zqhnjf7l5wnldhh7c134ap5vpj0850ymkq1iyzicy5s''"
    by code_simp
  have b1: "\<lparr> hashSize = regularHashSize htSHA256,
              hash = spec_base32_bytes (regularHashSize htSHA256)
                       ''1b8m03r63zqhnjf7l5wnldhh7c134ap5vpj0850ymkq1iyzicy5s'',
              type = htSHA256 \<rparr> = sha256_abc"
    by code_simp
  have v2: "spec_base32_invalid (regularHashSize htMD5) ''z0000000000000000000000000''"
    by code_simp
  show ?thesis
    using Hash_parse_base32 [OF l1] Hash_parse_base32 [OF l2] l1 l2 v1 b1 v2 by simp
qed

text \<open>
  The check is not at \<open>i + 1 = n - 1\<close>: the MD5 body \<open>z\<close> followed by 25 zeros is
  rejected, and no digit of it has high bits at that index.
\<close>

theorem Hash_parse_base32_counterexample:
  "length ''z0000000000000000000000000'' = base32Len (Hash_init htMD5)
   \<and> Hash_parse ''z0000000000000000000000000'' htMD5 False = Inl BadHashInvalidBase32
   \<and> \<not> spec_base32_invalid (regularHashSize htMD5 - 1) ''z0000000000000000000000000''"
  by code_simp


subsection \<open>Positions in an alphabet\<close>

lemma index_of_nth:
  "distinct cs \<Longrightarrow> i < length cs \<Longrightarrow> index_of cs (cs ! i) = i"
proof (induction cs arbitrary: i)
  case Nil
  then show ?case by simp
next
  case (Cons c cs)
  show ?case
  proof (cases i)
    case 0
    then show ?thesis by (simp add: index_of_def)
  next
    case (Suc i')
    then have "cs ! i' \<in> set cs" using Cons.prems by simp
    then have "c \<noteq> cs ! i'" using Cons.prems by auto
    then show ?thesis
      using Cons.IH [of i'] Cons.prems Suc by (simp add: index_of_def)
  qed
qed

lemma distinct_base32Chars: "distinct base32Chars"
  by (simp add: base32Chars_def)

lemma distinct_base64Chars: "distinct base64Chars"
  by (simp add: base64Chars_def)

lemma distinct_base16Chars: "distinct base16Chars"
  by (simp add: base16Chars_def)

subsection \<open>Base-64: decoding what was encoded\<close>

lemma u8_lt: "unat (a::u8) < 256"
  using unsigned_less [of a] by simp

lemma base64_digits_bound: "list_all (\<lambda>d. d < 64) (base64_digits bs)"
proof (induction bs rule: base64_digits.induct)
  case 1
  then show ?case by simp
next
  case (2 a)
  have "unat a div 4 < 64" using u8_lt [of a] by simp
  moreover have "unat a mod 4 * 16 < 64"
    using mod_less_divisor [of 4 "unat a"] by linarith
  ultimately show ?case by simp
next
  case (3 a b)
  have "unat a div 4 < 64" using u8_lt [of a] by simp
  moreover have "unat a mod 4 * 16 + unat b div 16 < 64"
    using mod_less_divisor [of 4 "unat a"] u8_lt [of b] by simp
  moreover have "unat b mod 16 * 4 < 64"
    using mod_less_divisor [of 16 "unat b"] by linarith
  ultimately show ?case by simp
next
  case (4 a b c bs)
  have "unat a div 4 < 64" using u8_lt [of a] by simp
  moreover have "unat a mod 4 * 16 + unat b div 16 < 64"
    using mod_less_divisor [of 4 "unat a"] u8_lt [of b] by simp
  moreover have "unat b mod 16 * 4 + unat c div 64 < 64"
    using mod_less_divisor [of 16 "unat b"] u8_lt [of c] by simp
  moreover have "unat c mod 64 < 64" by simp
  ultimately show ?case using 4 by simp
qed

lemma b64_join1:
  "y < 256 \<Longrightarrow> x div 4 * 4 + (x mod 4 * 16 + y div 16) div 16 = (x::nat)"
proof -
  assume "y < 256"
  then have "y div 16 < 16" by simp
  then have "(x mod 4 * 16 + y div 16) div 16 = x mod 4" by simp
  then show ?thesis by simp
qed

lemma b64_join2:
  "y < 256 \<Longrightarrow> z < 256 \<Longrightarrow>
    (x mod 4 * 16 + y div 16) mod 16 * 16 + (y mod 16 * 4 + z div 64) div 4 = (y::nat)"
proof -
  assume y: "y < 256" and z: "z < 256"
  from y have "y div 16 < 16" by simp
  then have 1: "y div 16 mod 16 = y div 16" by simp
  from z have "z div 64 < 4" by simp
  then have 2: "(y mod 16 * 4 + z div 64) div 4 = y mod 16" by simp
  show ?thesis by (simp add: 1 2)
qed

lemma b64_join3: "z < 256 \<Longrightarrow> (y mod 16 * 4 + z div 64) mod 4 * 64 + z mod 64 = (z::nat)"
proof -
  assume z: "z < 256"
  then have "z div 64 < 4" by simp
  then have 1: "z div 64 mod 4 = z div 64" by simp
  show ?thesis by (simp add: 1)
qed

lemma base64_bytes_digits: "base64_bytes (base64_digits bs) = bs"
proof (induction bs rule: base64_digits.induct)
  case 1
  then show ?case by simp
next
  case (2 a)
  show ?case using b64_join1 [of 0 "unat a"] by simp
next
  case (3 a b)
  show ?case
    using b64_join1 [OF u8_lt [of b], of "unat a"] b64_join2 [OF u8_lt [of b], of 0 "unat a"]
    by simp
next
  case (4 a b c bs)
  show ?case
    using 4 b64_join1 [OF u8_lt [of b], of "unat a"]
      b64_join2 [OF u8_lt [of b] u8_lt [of c], of "unat a"] b64_join3 [OF u8_lt [of c], of "unat b"]
    by simp
qed

lemma length_base64_digits: "length (base64_digits bs) = (4 * length bs + 2) div 3"
  by (induction bs rule: base64_digits.induct) simp_all


lemma length_base64Chars: "length base64Chars = 64"
  by (simp add: base64Chars_def)

lemma base64_body_set:
  "set (map (\<lambda>d. base64Chars ! d) (base64_digits bs)) \<subseteq> set base64Chars"
proof -
  have "d < 64" if "d \<in> set (base64_digits bs)" for d
    using base64_digits_bound [of bs] that by (simp add: list_all_iff)
  then show ?thesis
    by (auto simp: length_base64Chars)
qed

lemma base64_body_index:
  "map (index_of base64Chars) (map (\<lambda>d. base64Chars ! d) (base64_digits bs)) = base64_digits bs"
proof -
  have "index_of base64Chars (base64Chars ! d) = d" if "d \<in> set (base64_digits bs)" for d
  proof -
    have "d < 64" using base64_digits_bound [of bs] that by (simp add: list_all_iff)
    then show ?thesis
      by (simp add: index_of_nth distinct_base64Chars length_base64Chars)
  qed
  then show ?thesis by (simp add: map_idI)
qed

lemma takeWhile_body_padding:
  "c \<notin> set body \<Longrightarrow> takeWhile (\<lambda>x. x \<noteq> c) (body @ replicate k c) = body"
proof (induction body)
  case Nil
  then show ?case by (cases k) simp_all
next
  case (Cons x body)
  then show ?case by auto
qed

lemma base64Decode_Encode: "base64Decode (base64Encode bs) = Inr bs"
proof -
  define body where "body = map (\<lambda>d. base64Chars ! d) (base64_digits bs)"
  have "CHR ''='' \<notin> set base64Chars" by (simp add: base64Chars_def)
  then have ne: "CHR ''='' \<notin> set body"
    using base64_body_set [of bs] by (auto simp: body_def)
  have tw: "takeWhile (\<lambda>c. c \<noteq> CHR ''='') (base64Encode bs) = body"
    using takeWhile_body_padding [OF ne] by (simp add: base64Encode_def Let_def body_def)
  have ds: "map (index_of base64Chars) body = base64_digits bs"
    unfolding body_def by (rule base64_body_index)
  show ?thesis
    using base64_digits_bound [of bs]
    by (simp add: base64Decode_def tw ds base64_bytes_digits)
qed

lemma set_base64Encode: "set (base64Encode bs) \<subseteq> set base64Chars \<union> {CHR ''=''}"
  using base64_body_set [of bs] by (auto simp: base64Encode_def Let_def)

lemma length_base64Encode:
  "length (base64Encode bs) =
     (4 * length bs + 2) div 3 + (4 - (4 * length bs + 2) div 3 mod 4) mod 4"
  by (simp add: base64Encode_def Let_def length_base64_digits)

subsection \<open>The type prefix\<close>

lemma takeWhile_sep:
  "sep \<notin> set p \<Longrightarrow> takeWhile (\<lambda>c. c \<noteq> sep) (p @ sep # body) = p"
  by (induction p) auto

lemma dropWhile_sep:
  "sep \<notin> set p \<Longrightarrow> dropWhile (\<lambda>c. c \<noteq> sep) (p @ sep # body) = sep # body"
  by (induction p) auto

lemma splitPrefixTo_found:
  "sep \<notin> set p \<Longrightarrow> splitPrefixTo (p @ sep # body) sep = Some (p, body)"
  by (simp add: splitPrefixTo_def takeWhile_sep dropWhile_sep)

lemma splitPrefixTo_none: "sep \<notin> set s \<Longrightarrow> splitPrefixTo s sep = None"
  by (simp add: splitPrefixTo_def)

lemma parseHashType_print: "parseHashType (printHashType t) = Inr t"
  by (cases t) (simp_all add: parseHashType_def parseHashTypeOpt_def)

lemma printHashType_chars:
  "CHR '':'' \<notin> set (printHashType t)" "CHR ''-'' \<notin> set (printHashType t)"
  by (cases t; simp)+

lemma getParsedTypeAndSRI_colon:
  "getParsedTypeAndSRI (printHashType t @ '':'' @ body) = Inr (Some t, False, body)"
  using splitPrefixTo_found [OF printHashType_chars(1), of t body]
  by (simp add: getParsedTypeAndSRI_def parseHashType_print)

lemma getParsedTypeAndSRI_dash:
  assumes "CHR '':'' \<notin> set body"
  shows "getParsedTypeAndSRI (printHashType t @ ''-'' @ body) = Inr (Some t, True, body)"
proof -
  have "CHR '':'' \<notin> set (printHashType t @ ''-'' @ body)"
    using assms printHashType_chars(1) [of t] by simp
  then have "splitPrefixTo (printHashType t @ ''-'' @ body) (CHR '':'') = None"
    by (rule splitPrefixTo_none)
  then show ?thesis
    using splitPrefixTo_found [OF printHashType_chars(2), of t body]
    by (simp add: getParsedTypeAndSRI_def parseHashType_print)
qed


subsection \<open>Base-16: parsing what was printed\<close>

lemma concat_pairs:
  "length (concat (map (\<lambda>i. [f i, g i]) [0..<n])) = n * 2
   \<and> (\<forall>i < n. concat (map (\<lambda>i. [f i, g i]) [0..<n]) ! (i * 2) = f i
             \<and> concat (map (\<lambda>i. [f i, g i]) [0..<n]) ! (i * 2 + 1) = g i)"
proof (induction n)
  case 0
  then show ?case by simp
next
  case (Suc n)
  let ?xs = "concat (map (\<lambda>i. [f i, g i]) [0..<n])"
  have app: "concat (map (\<lambda>i. [f i, g i]) [0..<Suc n]) = ?xs @ [f n, g n]" by simp
  have len: "length ?xs = n * 2" using Suc by simp
  have "(?xs @ [f n, g n]) ! (i * 2) = f i \<and> (?xs @ [f n, g n]) ! (i * 2 + 1) = g i"
    if "i < Suc n" for i
  proof (cases "i < n")
    case True
    then have "i * 2 < length ?xs" "i * 2 + 1 < length ?xs" using len by simp_all
    then show ?thesis using Suc True by (simp add: nth_append)
  next
    case False
    then have "i = n" using that by simp
    then show ?thesis using len by (simp add: nth_append)
  qed
  then show ?case unfolding app using len by simp
qed

lemma parseHexDigit_table:
  "list_all (\<lambda>v. parseHexDigit (base16Chars ! v) = Inr (of_nat v)) [0..<16]"
  by code_simp

lemma parseHexDigit_base16Chars:
  "v < 16 \<Longrightarrow> parseHexDigit (base16Chars ! v) = Inr (of_nat v)"
  using parseHexDigit_table by (simp add: list_all_iff)

lemma mask4_u8: "(0x0f::u8) = mask 4" by (simp add: mask_eq_exp_minus_1)

lemma nibble_bounds: "unat (drop_bit 4 (b::u8)) < 16" "unat (b AND 0x0f) < 16"
proof -
  have "unat (drop_bit 4 b) = drop_bit 4 (unat b)"
    by (rule unat_drop_bit_eq)
  also have "\<dots> = unat b div 16"
    by (simp add: drop_bit_eq_div)
  finally show "unat (drop_bit 4 b) < 16" using u8_lt [of b] by simp
  have "unat (b AND mask 4) = take_bit 4 (unat b)"
    by (simp only: unsigned_take_bit_eq flip: take_bit_eq_mask)
  moreover have "take_bit 4 (unat b) < 2 ^ 4"
    by (rule take_bit_nat_less_exp)
  ultimately show "unat (b AND 0x0f) < 16" unfolding mask4_u8 by simp
qed

lemma nibbles_join:
  "(ucast (push_bit 4 (ucast (drop_bit 4 (b::u8)) :: u32) OR ucast (b AND 0x0f)) :: u8) = b"
  unfolding mask4_u8
  by (rule bit_word_eqI) (auto simp add: bit_simps dest: bit_imp_le_length)

lemma parse16_loop_ok:
  assumes "\<forall>i \<in> set ks. parseHexDigit (rest ! (i * 2)) = Inr (hi i)
                        \<and> parseHexDigit (rest ! (i * 2 + 1)) = Inr (lo i)"
  shows "\<exists>buf'. parse16_loop rest ks buf = Inr buf' \<and> length buf' = length buf
           \<and> (\<forall>m < length buf.
                 buf' ! m = (if m \<in> set ks then ucast (push_bit 4 (hi m) OR lo m) else buf ! m))"
  using assms
proof (induction ks arbitrary: buf)
  case Nil
  then show ?case by simp
next
  case (Cons i ks)
  define buf1 where "buf1 = buf[i := ucast (push_bit 4 (hi i) OR lo i)]"
  have step: "parse16_loop rest (i # ks) buf = parse16_loop rest ks buf1"
    using Cons.prems by (simp add: buf1_def)
  have rest: "\<forall>i \<in> set ks. parseHexDigit (rest ! (i * 2)) = Inr (hi i)
                        \<and> parseHexDigit (rest ! (i * 2 + 1)) = Inr (lo i)"
    using Cons.prems by simp
  obtain buf' where r: "parse16_loop rest ks buf1 = Inr buf'" and l: "length buf' = length buf1"
    and v: "\<forall>m < length buf1.
              buf' ! m = (if m \<in> set ks then ucast (push_bit 4 (hi m) OR lo m) else buf1 ! m)"
    using Cons.IH [OF rest, of buf1] by blast
  have l1: "length buf1 = length buf" by (simp add: buf1_def)
  have "buf' ! m = (if m \<in> set (i # ks) then ucast (push_bit 4 (hi m) OR lo m) else buf ! m)"
    if "m < length buf" for m
    using v that l1 by (auto simp: buf1_def)
  then show ?case using step r l l1 by simp
qed


lemma length_base16Chars: "length base16Chars = 16"
  by (simp add: base16Chars_def)

lemma take_pad_nth:
  "n \<le> length xs \<Longrightarrow> m < length xs \<Longrightarrow>
   (take n xs @ replicate (length xs - n) (0::u8)) ! m = (if m < n then xs ! m else 0)"
  by (simp add: nth_append)

lemma Hash_parse_printHash16:
  assumes len: "length (hash h) = maxHashSize" and reg: "hashSize h = regularHashSize (type h)"
  shows "\<exists>body. printHash16 h = Inr body \<and> CHR '':'' \<notin> set body
           \<and> Hash_parse body (type h) False =
               Inr \<lparr> hashSize = hashSize h,
                     hash = take (hashSize h) (hash h) @ replicate (maxHashSize - hashSize h) 0,
                     type = type h \<rparr>"
proof -
  define n where "n = hashSize h"
  define hi where "hi = (\<lambda>i. (of_nat (unat (drop_bit 4 (hash h ! i))) :: u32))"
  define lo where "lo = (\<lambda>i. (of_nat (unat (hash h ! i AND 0x0f)) :: u32))"
  define body where
    "body = concat (map (\<lambda>i. [base16Chars ! unat (drop_bit 4 (hash h ! i)),
                                base16Chars ! unat (hash h ! i AND 0x0f)]) [0..<n])"
  have n64: "n \<le> maxHashSize" using regularHashSize_le [of "type h"] reg by (simp add: n_def)
  have run: "printHash16 h = Inr body"
    using n64 by (simp add: printHash16_def body_def n_def)
  have cp: "length body = n * 2"
    "\<And>i. i < n \<Longrightarrow> body ! (i * 2) = base16Chars ! unat (drop_bit 4 (hash h ! i))"
    "\<And>i. i < n \<Longrightarrow> body ! (i * 2 + 1) = base16Chars ! unat (hash h ! i AND 0x0f)"
    using concat_pairs [of "\<lambda>i. base16Chars ! unat (drop_bit 4 (hash h ! i))"
                           "\<lambda>i. base16Chars ! unat (hash h ! i AND 0x0f)" n]
    by (simp_all add: body_def)
  have "set body \<subseteq> set base16Chars"
  proof -
    have "base16Chars ! unat (drop_bit 4 b) \<in> set base16Chars"
         "base16Chars ! unat (b AND 0x0f) \<in> set base16Chars" for b :: u8
      using nibble_bounds [of b] length_base16Chars by (simp_all only: nth_mem)
    then show ?thesis by (auto simp: body_def)
  qed
  moreover have "CHR '':'' \<notin> set base16Chars" by (simp add: base16Chars_def)
  ultimately have colon: "CHR '':'' \<notin> set body" by blast
  have digits: "\<forall>i \<in> set [0..<n]. parseHexDigit (body ! (i * 2)) = Inr (hi i)
                        \<and> parseHexDigit (body ! (i * 2 + 1)) = Inr (lo i)"
    using cp(2,3) nibble_bounds by (simp add: hi_def lo_def parseHexDigit_base16Chars)
  obtain buf' where r: "parse16_loop body [0..<n] (replicate maxHashSize 0) = Inr buf'"
    and l: "length buf' = maxHashSize"
    and v: "\<forall>m < maxHashSize. buf' ! m = (if m < n then ucast (push_bit 4 (hi m) OR lo m) else 0)"
    using parse16_loop_ok [OF digits, of "replicate maxHashSize 0"] by auto
  have bytes: "buf' = take n (hash h) @ replicate (maxHashSize - n) 0"
  proof (rule nth_equalityI)
    show "length buf' = length (take n (hash h) @ replicate (maxHashSize - n) 0)"
      using l len n64 by simp
  next
    fix m assume "m < length buf'"
    then have m: "m < maxHashSize" using l by simp
    have "(take n (hash h) @ replicate (length (hash h) - n) 0) ! m = (if m < n then hash h ! m else 0)"
      using take_pad_nth [of n "hash h" m] n64 m len by simp
    then show "buf' ! m = (take n (hash h) @ replicate (maxHashSize - n) 0) ! m"
      using v m by (simp add: len hi_def lo_def nibbles_join)
  qed
  have "Hash_parse body (type h) False = Inr \<lparr> hashSize = n, hash = buf', type = type h \<rparr>"
    using cp(1) r reg by (simp add: Hash_parse_def Hash_init_def Let_def base16Len_def n_def)
  then show ?thesis using run colon bytes by (simp add: n_def)
qed

subsection \<open>Base-32: parsing what was printed\<close>

lemma digit_byte_in_range: "k < (n * 8 + 4) div 5 \<Longrightarrow> k * 5 div 8 < (n::nat)"
proof -
  assume "k < (n * 8 + 4) div 5"
  then have "Suc k \<le> (n * 8 + 4) div 5" by simp
  then have "Suc k * 5 \<le> n * 8 + 4" by (simp add: less_eq_div_iff_mult_less_eq)
  then have "k * 5 < n * 8" by simp
  then show ?thesis by (simp add: div_less_iff_less_mult)
qed

lemma bit_position_covered:
  assumes "m < (n::nat)" "t < 8"
  shows "\<exists>k < (n * 8 + 4) div 5.
           (m = k * 5 div 8 \<and> k * 5 mod 8 \<le> t \<and> t - k * 5 mod 8 < 5)
           \<or> (m = k * 5 div 8 + 1 \<and> t + (8 - k * 5 mod 8) < 5)"
proof -
  define g where "g = m * 8 + t"
  define k where "k = g div 5"
  have g: "g < n * 8" using assms by (simp add: g_def) 
  have k1: "k * 5 \<le> g" by (simp add: k_def)
  have k2: "g < k * 5 + 5" using div_mult_mod_eq [of g 5] mod_less_divisor [of 5 g] unfolding k_def by linarith
  have kL: "k < (n * 8 + 4) div 5"
  proof -
    have "Suc k * 5 \<le> n * 8 + 4" using k1 g by simp
    then have "Suc k \<le> (n * 8 + 4) div 5" by (simp add: less_eq_div_iff_mult_less_eq)
    then show ?thesis by simp
  qed
  define i where "i = k * 5 div 8"
  define j where "j = k * 5 mod 8"
  have ij: "k * 5 = i * 8 + j" and j8: "j < 8"
    using div_mult_mod_eq [of "k * 5" 8] by (simp_all add: i_def j_def)
  have "i * 8 + j \<le> m * 8 + t" "m * 8 + t < i * 8 + j + 5"
    using ij k1 k2 unfolding g_def by simp_all
  note b = this
  have im: "i \<le> m"
  proof (rule ccontr)
    assume "\<not> i \<le> m"
    then have "m + 1 \<le> i" by simp
    then show False using b(1) assms(2) by linarith
  qed
  have mi: "m \<le> i + 1"
  proof (rule ccontr)
    assume "\<not> m \<le> i + 1"
    then have "i + 2 \<le> m" by simp
    then show False using b(2) j8 by linarith
  qed
  have "m = i \<or> m = i + 1" using im mi by linarith
  then have "(m = i \<and> j \<le> t \<and> t - j < 5) \<or> (m = i + 1 \<and> t + (8 - j) < 5)"
  proof
    assume "m = i"
    then show ?thesis using b by auto
  next
    assume "m = i + 1"
    then show ?thesis using b j8 by simp
  qed
  then show ?thesis using kL unfolding i_def j_def by blast
qed


lemma bit_printHash32_digit:
  assumes "1 \<le> hashSize h"
  shows "bit (printHash32_digit h k) u =
     (u < 5 \<and> (bit (hash h ! (k * 5 div 8)) (u + k * 5 mod 8)
               \<or> (k * 5 div 8 + 1 < hashSize h \<and> 8 - k * 5 mod 8 \<le> u
                   \<and> bit (hash h ! (k * 5 div 8 + 1)) (u - (8 - k * 5 mod 8)))))"
proof (cases "hashSize h - 1 \<le> k * 5 div 8")
  case True
  then have last: "\<not> k * 5 div 8 + 1 < hashSize h" by simp
  have "printHash32_digit h k = drop_bit (k * 5 mod 8) (hash h ! (k * 5 div 8)) AND 0x1f"
    using True by (simp add: printHash32_digit_def Let_def ucast_drop_u32)
  then have "bit (printHash32_digit h k) u
             = (u < 5 \<and> bit (drop_bit (k * 5 mod 8) (hash h ! (k * 5 div 8))) u)"
    by (simp only: bit_u8_low5)
  then show ?thesis using last by (simp add: bit_simps ac_simps)
next
  case False
  then have mid: "k * 5 div 8 + 1 < hashSize h" by simp
  have "printHash32_digit h k =
          ucast (drop_bit (k * 5 mod 8) (ucast (hash h ! (k * 5 div 8)) :: u32)
                 OR push_bit (8 - k * 5 mod 8) (ucast (hash h ! (k * 5 div 8 + 1)) :: u32))
          AND 0x1f"
    using False by (simp add: printHash32_digit_def Let_def)
  then have "bit (printHash32_digit h k) u
             = (u < 5 \<and> bit (ucast (drop_bit (k * 5 mod 8) (ucast (hash h ! (k * 5 div 8)) :: u32)
                 OR push_bit (8 - k * 5 mod 8) (ucast (hash h ! (k * 5 div 8 + 1)) :: u32)) :: u8) u)"
    by (simp only: bit_u8_low5)
  then show ?thesis using mid by (auto simp only: bit_print_byte)
qed

lemma printHash32_digit_less: "unat (printHash32_digit h k) < 32"
proof -
  obtain c :: u8 where c: "printHash32_digit h k = c AND 0x1f"
    by (simp add: printHash32_digit_def Let_def)
  have "c AND 0x1f = take_bit 5 c"
    unfolding mask5_u8 by (simp add: take_bit_eq_mask)
  then have "unat (printHash32_digit h k) = take_bit 5 (unat c)"
    using c by (simp only: unsigned_take_bit_eq)
  moreover have "take_bit 5 (unat c) < 2 ^ 5"
    by (rule take_bit_nat_less_exp)
  ultimately show ?thesis by simp
qed

lemma length_base32Chars: "length base32Chars = 32"
  by (simp add: base32Chars_def)

lemma rev_upt_nth: "k < L \<Longrightarrow> rev [0..<L] ! (L - 1 - k) = k"
  by (simp add: rev_nth)

lemma spec_digit_of_print:
  assumes "k < L"
  shows "spec_base32_digit (map (printHash32_char h) (rev [0..<L])) k = printHash32_digit h k"
proof -
  have "map (printHash32_char h) (rev [0..<L]) ! (L - 1 - k) = printHash32_char h k"
    using assms rev_upt_nth [OF assms] by simp
  then have "spec_base32_digit (map (printHash32_char h) (rev [0..<L])) k
             = of_nat (index_of base32Chars (base32Chars ! unat (printHash32_digit h k)))"
    by (simp add: spec_base32_digit_def printHash32_char_def)
  also have "\<dots> = of_nat (unat (printHash32_digit h k))"
    using printHash32_digit_less [of h k]
    by (simp add: index_of_nth distinct_base32Chars length_base32Chars)
  finally show ?thesis by simp
qed

lemma bit_foldr_or:
  "bit (foldr (\<lambda>k a. f k OR a) ks (0::u8)) t = (\<exists>k \<in> set ks. bit (f k) t)"
  by (induction ks) (auto simp: bit_simps)

lemma bit_spec_base32_contribution:
  "bit (spec_base32_contribution n rest k m) t =
     ((m = k * 5 div 8 \<and> k * 5 mod 8 \<le> t \<and> t < 8
         \<and> bit (spec_base32_digit rest k) (t - k * 5 mod 8))
      \<or> (m = k * 5 div 8 + 1 \<and> k * 5 div 8 + 1 < n
         \<and> bit (spec_base32_digit rest k) (t + (8 - k * 5 mod 8))))"
  by (auto simp add: spec_base32_contribution_def Let_def bit_simps ac_simps
      dest: bit_imp_le_length)


lemma printed_contribution:
  assumes n1: "1 \<le> hashSize h" and kL: "k < (hashSize h * 8 + 4) div 5" and t8: "t < 8"
          and d: "spec_base32_digit rest k = printHash32_digit h k"
  shows "bit (spec_base32_contribution (hashSize h) rest k m) t =
           (bit (hash h ! m) t \<and> m < hashSize h
            \<and> ((m = k * 5 div 8 \<and> k * 5 mod 8 \<le> t \<and> t - k * 5 mod 8 < 5)
                \<or> (m = k * 5 div 8 + 1 \<and> t + (8 - k * 5 mod 8) < 5)))"
proof -
  define i where "i = k * 5 div 8"
  define j where "j = k * 5 mod 8"
  have j8: "j < 8" by (simp add: j_def)
  have iN: "i < hashSize h" using digit_byte_in_range [OF kL] by (simp add: i_def)
  have nb: "\<not> bit (hash h ! i) (t + 8)"
    using bit_imp_le_length [of "hash h ! i" "t + 8"] by auto
  have A: "(j \<le> t \<and> bit (printHash32_digit h k) (t - j))
           = (j \<le> t \<and> t - j < 5 \<and> bit (hash h ! i) t)"
    using t8 j8 by (auto simp add: bit_printHash32_digit [OF n1] i_def [symmetric] j_def [symmetric])
  have B: "bit (printHash32_digit h k) (t + (8 - j))
           = (t + (8 - j) < 5 \<and> i + 1 < hashSize h \<and> bit (hash h ! (i + 1)) t)"
    using t8 j8 nb
    by (auto simp add: bit_printHash32_digit [OF n1] i_def [symmetric] j_def [symmetric])
  have "bit (spec_base32_contribution (hashSize h) rest k m) t =
     ((m = i \<and> j \<le> t \<and> t < 8 \<and> bit (printHash32_digit h k) (t - j))
      \<or> (m = i + 1 \<and> i + 1 < hashSize h \<and> bit (printHash32_digit h k) (t + (8 - j))))"
    by (simp add: bit_spec_base32_contribution d i_def j_def)
  also have "\<dots> = (bit (hash h ! m) t \<and> m < hashSize h
            \<and> ((m = i \<and> j \<le> t \<and> t - j < 5) \<or> (m = i + 1 \<and> t + (8 - j) < 5)))"
    using A B t8 iN by auto
  finally show ?thesis by (simp add: i_def j_def)
qed


lemma printed_bytes:
  assumes n1: "1 \<le> hashSize h" and m: "m < maxHashSize"
  shows "foldr (\<lambda>k a. spec_base32_contribution (hashSize h)
                         (map (printHash32_char h) (rev [0..<(hashSize h * 8 + 4) div 5])) k m OR a)
               [0..<(hashSize h * 8 + 4) div 5] 0
         = (if m < hashSize h then hash h ! m else 0)"
proof (rule bit_word_eqI)
  fix t assume "t < LENGTH(8)"
  then have t8: "t < 8" by simp
  define L where "L = (hashSize h * 8 + 4) div 5"
  define body where "body = map (printHash32_char h) (rev [0..<L])"
  have c: "bit (spec_base32_contribution (hashSize h) body k m) t =
           (bit (hash h ! m) t \<and> m < hashSize h
            \<and> ((m = k * 5 div 8 \<and> k * 5 mod 8 \<le> t \<and> t - k * 5 mod 8 < 5)
                \<or> (m = k * 5 div 8 + 1 \<and> t + (8 - k * 5 mod 8) < 5)))" if "k < L" for k
    using printed_contribution [OF n1 _ t8, of k body m] that spec_digit_of_print [OF that, of h]
    by (simp add: L_def body_def)
  have "bit (foldr (\<lambda>k a. spec_base32_contribution (hashSize h) body k m OR a) [0..<L] 0) t
        = (\<exists>k < L. bit (spec_base32_contribution (hashSize h) body k m) t)"
    by (auto simp add: bit_foldr_or)
  also have "\<dots> = (bit (hash h ! m) t \<and> m < hashSize h)"
  proof (cases "m < hashSize h")
    case True
    obtain k where "k < L"
      "(m = k * 5 div 8 \<and> k * 5 mod 8 \<le> t \<and> t - k * 5 mod 8 < 5)
           \<or> (m = k * 5 div 8 + 1 \<and> t + (8 - k * 5 mod 8) < 5)"
      using bit_position_covered [OF True t8] unfolding L_def by blast
    then show ?thesis using c True by blast
  next
    case False
    then show ?thesis using c by blast
  qed
  finally show "bit (foldr (\<lambda>k a. spec_base32_contribution (hashSize h)
                         (map (printHash32_char h) (rev [0..<(hashSize h * 8 + 4) div 5])) k m OR a)
               [0..<(hashSize h * 8 + 4) div 5] 0) t
         = bit (if m < hashSize h then hash h ! m else 0) t"
    by (simp add: L_def body_def)
qed

lemma printed_valid:
  assumes n1: "1 \<le> hashSize h"
  shows "\<not> spec_base32_invalid (hashSize h)
             (map (printHash32_char h) (rev [0..<(hashSize h * 8 + 4) div 5]))"
proof -
  define L where "L = (hashSize h * 8 + 4) div 5"
  define body where "body = map (printHash32_char h) (rev [0..<L])"
  have ok: "\<not> 32 \<le> printHash32_digit h k
            \<and> (k * 5 div 8 + 1 = hashSize h
                 \<longrightarrow> drop_bit (8 - k * 5 mod 8) (printHash32_digit h k) = 0)" for k
  proof -
    have "unat (printHash32_digit h k) < unat (32::u8)"
      using printHash32_digit_less [of h k] by simp
    then have a: "\<not> 32 \<le> printHash32_digit h k"
      by (simp add: word_le_nat_alt)
    have b: "drop_bit (8 - k * 5 mod 8) (printHash32_digit h k) = 0"
      if "k * 5 div 8 + 1 = hashSize h"
    proof (rule bit_word_eqI)
      fix u assume "u < LENGTH(8)"
      have j8: "k * 5 mod 8 < 8" by simp
      have nb: "\<not> bit (hash h ! (k * 5 div 8)) (8 + u)"
        using bit_imp_le_length [of "hash h ! (k * 5 div 8)" "8 + u"] by auto
      have "8 - k * 5 mod 8 + u + k * 5 mod 8 = 8 + u" using j8 by simp
      then have "\<not> bit (printHash32_digit h k) (8 - k * 5 mod 8 + u)"
        using that nb by (simp add: bit_printHash32_digit [OF n1])
      then show "bit (drop_bit (8 - k * 5 mod 8) (printHash32_digit h k)) u = bit (0::u8) u"
        by (simp add: bit_simps)
    qed
    show ?thesis using a b by blast
  qed
  have "\<not> spec_base32_invalid (hashSize h) body"
    unfolding spec_base32_invalid_def list_ex_iff
    using ok spec_digit_of_print [of _ L h]
    by (auto simp add: body_def Let_def)
  then show ?thesis by (simp add: body_def L_def)
qed

lemma Hash_parse_printHash32:
  assumes len: "length (hash h) = maxHashSize" and reg: "hashSize h = regularHashSize (type h)"
  shows "\<exists>body. printHash32 h = Inr body \<and> CHR '':'' \<notin> set body
           \<and> Hash_parse body (type h) False =
               Inr \<lparr> hashSize = hashSize h,
                     hash = take (hashSize h) (hash h) @ replicate (maxHashSize - hashSize h) 0,
                     type = type h \<rparr>"
proof -
  define n where "n = hashSize h"
  define L where "L = (n * 8 + 4) div 5"
  define body where "body = map (printHash32_char h) (rev [0..<L])"
  have n16: "16 \<le> n" and n64: "n \<le> maxHashSize"
    using regularHashSize_ge [of "type h"] regularHashSize_le [of "type h"] reg
    by (simp_all add: n_def)
  then have n1: "1 \<le> hashSize h" by (simp add: n_def)
  have Lb: "base32Len h = L" by (simp add: base32Len_def L_def n_def)
  have Lpos: "0 < L" using n16 unfolding L_def by simp
  have run: "printHash32 h = Inr body"
    using n16 n64 Lpos by (simp add: printHash32_def Lb body_def n_def [symmetric])
  have "set body \<subseteq> set base32Chars"
  proof -
    have "printHash32_char h k \<in> set base32Chars" for k
      unfolding printHash32_char_def
      using printHash32_digit_less [of h k] length_base32Chars by (simp only: nth_mem)
    then show ?thesis by (auto simp: body_def)
  qed
  moreover have "CHR '':'' \<notin> set base32Chars" by (simp add: base32Chars_def)
  ultimately have colon: "CHR '':'' \<notin> set body" by blast
  have lb: "length body = base32Len (Hash_init (type h))"
    by (simp add: body_def base32Len_def Hash_init_def L_def n_def reg)
  have valid: "\<not> spec_base32_invalid (regularHashSize (type h)) body"
    using printed_valid [OF n1] by (simp add: body_def L_def n_def reg)
  have bytes: "spec_base32_bytes (regularHashSize (type h)) body
                 = take n (hash h) @ replicate (maxHashSize - n) 0"
  proof (rule nth_equalityI)
    show "length (spec_base32_bytes (regularHashSize (type h)) body)
            = length (take n (hash h) @ replicate (maxHashSize - n) 0)"
      using len n64 by (simp add: spec_base32_bytes_def)
  next
    fix m assume "m < length (spec_base32_bytes (regularHashSize (type h)) body)"
    then have m: "m < maxHashSize" by (simp add: spec_base32_bytes_def)
    have "(take n (hash h) @ replicate (length (hash h) - n) 0) ! m = (if m < n then hash h ! m else 0)"
      using take_pad_nth [of n "hash h" m] n64 m len by simp
    moreover have "spec_base32_bytes (regularHashSize (type h)) body ! m
                     = (if m < n then hash h ! m else 0)"
      using printed_bytes [OF n1 m] m
      by (simp add: spec_base32_bytes_def body_def L_def n_def reg [symmetric])
    ultimately show "spec_base32_bytes (regularHashSize (type h)) body ! m
                       = (take n (hash h) @ replicate (maxHashSize - n) 0) ! m"
      by (simp add: len)
  qed
  show ?thesis
    using run colon Hash_parse_base32_run [OF lb] valid bytes by (simp add: n_def reg)
qed


subsection \<open>The round trip\<close>

lemma Hash_parse_base64Encode:
  assumes len: "length (hash h) = maxHashSize" and reg: "hashSize h = regularHashSize (type h)"
  shows "CHR '':'' \<notin> set (base64Encode (take (hashSize h) (hash h)))
         \<and> Hash_parse (base64Encode (take (hashSize h) (hash h))) (type h) isSRI =
               Inr \<lparr> hashSize = hashSize h,
                     hash = take (hashSize h) (hash h) @ replicate (maxHashSize - hashSize h) 0,
                     type = type h \<rparr>"
proof -
  define n where "n = hashSize h"
  define body where "body = base64Encode (take n (hash h))"
  have n64: "n \<le> maxHashSize" using regularHashSize_le [of "type h"] reg by (simp add: n_def)
  have lt: "length (take n (hash h)) = n" using n64 len by simp
  have "CHR '':'' \<notin> set base64Chars \<union> {CHR ''=''}" by (simp add: base64Chars_def)
  then have colon: "CHR '':'' \<notin> set body"
    using set_base64Encode [of "take n (hash h)"] unfolding body_def by blast
  have lens: "length body \<noteq> base16Len (Hash_init (type h))
              \<and> length body \<noteq> base32Len (Hash_init (type h))
              \<and> length body = base64Len (Hash_init (type h))"
  proof -
    have lb: "length body = (4 * n + 2) div 3 + (4 - (4 * n + 2) div 3 mod 4) mod 4"
      unfolding body_def by (simp only: length_base64Encode lt)
    have rn: "regularHashSize (type h) = n" using reg by (simp add: n_def)
    have "n = 16 \<or> n = 20 \<or> n = 32 \<or> n = 64"
      using rn
      by (cases "type h")
        (simp_all add: md5HashSize_def sha1HashSize_def sha256HashSize_def sha512HashSize_def)
    then show ?thesis
      by (elim disjE)
        (simp_all add: lb rn base16Len_def base32Len_def base64Len_def Hash_init_def)
  qed
  have dec: "base64Decode body = Inr (take n (hash h))"
    unfolding body_def by (rule base64Decode_Encode)
  have "Hash_parse body (type h) isSRI =
          Inr \<lparr> hashSize = n, hash = take n (hash h) @ replicate (maxHashSize - n) 0,
                type = type h \<rparr>"
    using lens dec lt n64
    by (simp add: Hash_parse_def Let_def Hash_init_def reg [symmetric] n_def [symmetric])
  then show ?thesis using colon by (simp add: body_def n_def)
qed

text \<open>
  C1: for every Hash of the regular size of its type and every format, rendering it with
  its type and parsing the text with \<open>parseAny\<close>, no type expected, succeeds and returns a
  Hash that \<open>==\<close> finds equal to the original: the same size, the same first \<open>size\<close>
  bytes (and zero bytes after them), and also the same type.
\<close>

theorem parseAny_to_string_roundtrip:
  assumes len: "length (hash h) = maxHashSize" and reg: "hashSize h = regularHashSize (type h)"
  shows "\<exists>s h'. to_string h f True = Inr s \<and> parseAny s None = Inr h'
           \<and> Hash_eq h' h \<and> type h' = type h \<and> hashSize h' = hashSize h
           \<and> hash h' = take (hashSize h) (hash h) @ replicate (maxHashSize - hashSize h) 0"
proof -
  define h' where
    "h' = \<lparr> hashSize = hashSize h,
            hash = take (hashSize h) (hash h) @ replicate (maxHashSize - hashSize h) 0,
            type = type h \<rparr>"
  have n64: "hashSize h \<le> maxHashSize" using regularHashSize_le [of "type h"] reg by simp
  have eq: "Hash_eq h' h"
    unfolding Hash_eq_def h'_def using n64 len by (simp add: list_all_iff nth_append)
  have flds: "type h' = type h" "hashSize h' = hashSize h"
    "hash h' = take (hashSize h) (hash h) @ replicate (maxHashSize - hashSize h) 0"
    by (simp_all add: h'_def)
  have "\<exists>s. to_string h f True = Inr s \<and> parseAny s None = Inr h'"
  proof (cases f)
    case Base16
    obtain body where "printHash16 h = Inr body" "Hash_parse body (type h) False = Inr h'"
      using Hash_parse_printHash16 [OF len reg] unfolding h'_def by blast
    then show ?thesis
      using Base16 getParsedTypeAndSRI_colon [of "type h" body]
      by (simp add: to_string_def parseAny_def)
  next
    case Base32
    obtain body where "printHash32 h = Inr body" "Hash_parse body (type h) False = Inr h'"
      using Hash_parse_printHash32 [OF len reg] unfolding h'_def by blast
    then show ?thesis
      using Base32 getParsedTypeAndSRI_colon [of "type h" body]
      by (simp add: to_string_def parseAny_def)
  next
    case Base64
    have "Hash_parse (base64Encode (take (hashSize h) (hash h))) (type h) False = Inr h'"
      using Hash_parse_base64Encode [OF len reg, of False] unfolding h'_def by blast
    then show ?thesis
      using Base64 n64 getParsedTypeAndSRI_colon [of "type h" "base64Encode (take (hashSize h) (hash h))"]
      by (simp add: to_string_def parseAny_def)
  next
    case SRI
    have "CHR '':'' \<notin> set (base64Encode (take (hashSize h) (hash h)))"
      "Hash_parse (base64Encode (take (hashSize h) (hash h))) (type h) True = Inr h'"
      using Hash_parse_base64Encode [OF len reg, of True] unfolding h'_def by blast+
    then show ?thesis
      using SRI n64 getParsedTypeAndSRI_dash [of "base64Encode (take (hashSize h) (hash h))" "type h"]
      by (simp add: to_string_def parseAny_def)
  qed
  then show ?thesis using eq flds by blast
qed


theorem parseAny_to_string_roundtrip_witness:
  "length (hash sha256_abc) = maxHashSize
   \<and> hashSize sha256_abc = regularHashSize (type sha256_abc)
   \<and> to_string sha256_abc Base32 True
       = Inr ''sha256:1b8m03r63zqhnjf7l5wnldhh7c134ap5vpj0850ymkq1iyzicy5s''
   \<and> parseAny ''sha256:1b8m03r63zqhnjf7l5wnldhh7c134ap5vpj0850ymkq1iyzicy5s'' None = Inr sha256_abc
   \<and> to_string sha256_abc SRI True = Inr ''sha256-ungWv48Bz+pBQUDeXa4iI7ADYaOWF3qctBD/YfIAFa0=''
   \<and> parseAny ''sha256-ungWv48Bz+pBQUDeXa4iI7ADYaOWF3qctBD/YfIAFa0='' None = Inr sha256_abc"
proof -
  have len: "length (hash sha256_abc) = maxHashSize"
    by (simp add: sha256_abc_def maxHashSize_def)
  have reg: "hashSize sha256_abc = regularHashSize (type sha256_abc)"
    by (simp add: sha256_abc_def sha256HashSize_def)
  have pad: "take (hashSize sha256_abc) (hash sha256_abc)
               @ replicate (maxHashSize - hashSize sha256_abc) 0 = hash sha256_abc"
    by (simp add: sha256_abc_def maxHashSize_def)
  have same: "h' = sha256_abc"
    if "type h' = type sha256_abc" "hashSize h' = hashSize sha256_abc"
       "hash h' = take (hashSize sha256_abc) (hash sha256_abc)
                    @ replicate (maxHashSize - hashSize sha256_abc) 0" for h' :: Hash
    using that pad by (intro Hash.equality) simp_all
  have t32: "to_string sha256_abc Base32 True
       = Inr ''sha256:1b8m03r63zqhnjf7l5wnldhh7c134ap5vpj0850ymkq1iyzicy5s''"
    by code_simp
  have tsri: "to_string sha256_abc SRI True
       = Inr ''sha256-ungWv48Bz+pBQUDeXa4iI7ADYaOWF3qctBD/YfIAFa0=''"
    by code_simp
  have p32: "parseAny ''sha256:1b8m03r63zqhnjf7l5wnldhh7c134ap5vpj0850ymkq1iyzicy5s'' None
               = Inr sha256_abc"
    using parseAny_to_string_roundtrip [OF len reg, of Base32] t32 same by auto
  have psri: "parseAny ''sha256-ungWv48Bz+pBQUDeXa4iI7ADYaOWF3qctBD/YfIAFa0='' None
               = Inr sha256_abc"
    using parseAny_to_string_roundtrip [OF len reg, of SRI] tsri same by auto
  show ?thesis using len reg t32 tsri p32 psri by blast
qed

subsection \<open>The dummy hash\<close>

text \<open>
  C8, as the code has it: \<open>dummy\<close> is the SHA-256 Hash of size 32 whose bytes are all
  zero; its base-16 rendering without type is 64 characters \<open>0\<close>; its SRI rendering is
  \<open>sha256-\<close> followed by the base-64 text of 32 zero bytes, 43 characters \<open>A\<close> and one
  \<open>=\<close>.
\<close>

theorem dummy_renderings:
  "type dummy = htSHA256 \<and> hashSize dummy = 32 \<and> hash dummy = replicate 64 0
   \<and> to_string dummy Base16 False
       = Inr ''0000000000000000000000000000000000000000000000000000000000000000''
   \<and> to_string dummy SRI True = Inr ''sha256-AAAAAAAAAAAAAAAAAAAAAAAAAAAAAAAAAAAAAAAAAAA=''"
  by code_simp

text \<open>
  The SRI text \<open>sha256-47DEQpj8HBSa+/TImW+5JCeuQeRkm5NMpJWZG3hSuFU=\<close> is the SHA-256
  digest of the empty input, not the rendering of \<open>dummy\<close>.
\<close>

theorem dummy_sri_counterexample:
  "to_string dummy SRI True \<noteq> Inr ''sha256-47DEQpj8HBSa+/TImW+5JCeuQeRkm5NMpJWZG3hSuFU=''"
  by code_simp

section \<open>Properties of the path metadata\<close>

subsection \<open>Fingerprint\<close>

text \<open>
  C4: the fingerprint fails with the size-unknown error exactly when \<open>narSize\<close> is 0;
  with a non-zero \<open>narSize\<close> and a NAR hash within the data model's bounds it is the text
  \<open>1;\<close> path \<open>;\<close> hash in base-32 with its type \<open>;\<close> decimal size \<open>;\<close> printed references
  joined by commas; and two records with the same path, NAR hash, NAR size and
  references have the same fingerprint, whatever their other fields are.
\<close>

theorem fingerprint_spec:
  "(fingerprint store v = Inl NarSizeUnknown \<longleftrightarrow> narSize v = 0)
   \<and> (narSize v \<noteq> 0 \<longrightarrow> Hash_inv (narHash v) \<longrightarrow>
        (\<exists>hs. to_string (narHash v) Base32 True = Inr hs
           \<and> fingerprint store v =
               Inr (''1;'' @ printStorePath store (path v) @ '';'' @ hs @ '';''
                    @ to_string_u64 (narSize v) @ '';''
                    @ concatStringsSep '','' (printStorePathSet store (references v)))))
   \<and> (\<forall>v'. path v' = path v \<and> narHash v' = narHash v \<and> narSize v' = narSize v
             \<and> references v' = references v
          \<longrightarrow> fingerprint store v' = fingerprint store v)"
proof -
  have a: "fingerprint store v = Inl NarSizeUnknown \<longleftrightarrow> narSize v = 0"
    by (auto simp: fingerprint_def to_string_def printHash32_def split: sum.splits if_splits)
  have b: "\<exists>hs. to_string (narHash v) Base32 True = Inr hs
           \<and> fingerprint store v =
               Inr (''1;'' @ printStorePath store (path v) @ '';'' @ hs @ '';''
                    @ to_string_u64 (narSize v) @ '';''
                    @ concatStringsSep '','' (printStorePathSet store (references v)))"
    if "narSize v \<noteq> 0" "Hash_inv (narHash v)"
  proof -
    have "0 < base32Len (narHash v)"
      using that(2) unfolding Hash_inv_def base32Len_def by arith
    then show ?thesis
      using that by (simp add: fingerprint_def to_string_def printHash32_def Hash_inv_def)
  qed
  have c: "fingerprint store v' = fingerprint store v"
    if "path v' = path v \<and> narHash v' = narHash v \<and> narSize v' = narSize v
             \<and> references v' = references v" for v'
    using that by (auto simp: fingerprint_def split: sum.splits)
  show ?thesis using a b c by blast
qed

theorem fingerprint_spec_witness:
  "narSize info0 \<noteq> 0 \<and> Hash_inv (narHash info0)
   \<and> fingerprint store0 info0 =
       Inr ''1;/nix/store/b-pkg;sha256:1b8m03r63zqhnjf7l5wnldhh7c134ap5vpj0850ymkq1iyzicy5s;1203;/nix/store/a-dep,/nix/store/b-pkg''
   \<and> fingerprint store0 (info0\<lparr>deriver := Some ''d.drv'', registrationTime := 7, ultimate := True,
                                sigs := [], ca := Some (ContentAddress TextIngestionMethod dummy)\<rparr>)
       = fingerprint store0 info0
   \<and> fingerprint store0 (info0\<lparr>narSize := 0\<rparr>) = Inl NarSizeUnknown"
proof -
  have n: "narSize info0 \<noteq> 0" by (simp add: info0_def)
  have i: "Hash_inv (narHash info0)"
    by (simp add: info0_def Hash_inv_def sha256_abc_def maxHashSize_def)
  have hs: "to_string (narHash info0) Base32 True
              = Inr ''sha256:1b8m03r63zqhnjf7l5wnldhh7c134ap5vpj0850ymkq1iyzicy5s''"
    by code_simp
  have d: "to_string_u64 (narSize info0) = ''1203''"
    by (simp add: info0_def to_string_u64_def)
  have r: "printStorePathSet store0 (references info0) = [''/nix/store/a-dep'', ''/nix/store/b-pkg'']"
    by (simp add: store0_def info0_def)
  have p: "printStorePath store0 (path info0) = ''/nix/store/b-pkg''"
    by (simp add: store0_def info0_def)
  let ?v' = "info0\<lparr>deriver := Some ''d.drv'', registrationTime := 7, ultimate := True,
                                sigs := [], ca := Some (ContentAddress TextIngestionMethod dummy)\<rparr>"
  have same: "path ?v' = path info0 \<and> narHash ?v' = narHash info0 \<and> narSize ?v' = narSize info0
             \<and> references ?v' = references info0" by simp
  have z: "narSize (info0\<lparr>narSize := 0\<rparr>) = 0" by simp
  have 1: "fingerprint store0 info0 =
       Inr ''1;/nix/store/b-pkg;sha256:1b8m03r63zqhnjf7l5wnldhh7c134ap5vpj0850ymkq1iyzicy5s;1203;/nix/store/a-dep,/nix/store/b-pkg''"
    using fingerprint_spec [of store0 info0] n i hs d r p by simp
  have 2: "fingerprint store0 ?v' = fingerprint store0 info0"
    using fingerprint_spec [of store0 info0] same by blast
  have 3: "fingerprint store0 (info0\<lparr>narSize := 0\<rparr>) = Inl NarSizeUnknown"
    using fingerprint_spec [of store0 "info0\<lparr>narSize := 0\<rparr>"] z by blast
  show ?thesis using n i 1 2 3 by blast
qed


subsection \<open>Content address reconstruction\<close>

text \<open>
  C6: \<open>contentAddressWithReferences\<close> returns nothing exactly when \<open>ca\<close> is empty; for a text
  content address, and a path that is not among the references, it returns the TextInfo
  of the hash and the references; for a file content address it returns the
  FixedOutputInfo of the method and hash, with the self flag telling whether the path is
  among the references and with the references without the path as the others.
\<close>

theorem contentAddressWithReferences_cases:
  "(contentAddressWithReferences v = Inr None \<longleftrightarrow> ca v = None)
   \<and> (ca v = Some (ContentAddress TextIngestionMethod h) \<longrightarrow> path v \<notin> references v \<longrightarrow>
        contentAddressWithReferences v = Inr (Some (TextInfo h (references v))))
   \<and> (ca v = Some (ContentAddress (FileIngestion m) h) \<longrightarrow>
        contentAddressWithReferences v =
          Inr (Some (FixedOutputInfo m h
                 \<lparr> others = references v - {path v}, self = (path v \<in> references v) \<rparr>)))"
  by (auto simp: contentAddressWithReferences_def Let_def split: option.splits ContentAddressMethod.splits ContentAddress.splits)

theorem contentAddressWithReferences_cases_witness:
  "contentAddressWithReferences (info0\<lparr>ca := Some (ContentAddress (FileIngestion NAR) sha256_abc)\<rparr>)
     = Inr (Some (FixedOutputInfo NAR sha256_abc \<lparr> others = {''a-dep''}, self = True \<rparr>))
   \<and> contentAddressWithReferences (info0\<lparr>ca := Some (ContentAddress TextIngestionMethod sha256_abc), path := ''c-lib''\<rparr>)
     = Inr (Some (TextInfo sha256_abc {''a-dep'', ''b-pkg''}))
   \<and> contentAddressWithReferences info0 = Inr None"
proof -
  let ?v1 = "info0\<lparr>ca := Some (ContentAddress (FileIngestion NAR) sha256_abc)\<rparr>"
  let ?v2 = "info0\<lparr>ca := Some (ContentAddress TextIngestionMethod sha256_abc), path := ''c-lib''\<rparr>"
  have a: "ca ?v1 = Some (ContentAddress (FileIngestion NAR) sha256_abc)" by simp
  have b: "ca ?v2 = Some (ContentAddress TextIngestionMethod sha256_abc)" by simp
  have c: "path ?v2 \<notin> references ?v2" by (simp add: info0_def)
  have d: "ca info0 = None" by (simp add: info0_def)
  have e: "references ?v1 - {path ?v1} = {''a-dep''}" "path ?v1 \<in> references ?v1" 
    "references ?v2 = {''a-dep'', ''b-pkg''}"
    by (auto simp add: info0_def)
  show ?thesis
    using contentAddressWithReferences_cases [of ?v1 sha256_abc NAR]
      contentAddressWithReferences_cases [of ?v2 sha256_abc]
      contentAddressWithReferences_cases [of info0] a b c d e
    by (simp del: ValidPathInfo.simps UnkeyedValidPathInfo.simps)
qed


text \<open>
  C7, as the code has it: when the path that the store derives for \<open>(name, car)\<close> is
  not itself among the references of \<open>car\<close> (the references of a TextInfo, the others of
  a FixedOutputInfo), constructing the record from \<open>(store, name, car, narHash)\<close> and
  reconstructing the content address gives \<open>car\<close> back.
\<close>

theorem ca_roundtrip:
  assumes "makeFixedOutputPathFromCA store name car
             \<notin> (case car of TextInfo h refs \<Rightarrow> refs | FixedOutputInfo m h r \<Rightarrow> others r)"
  shows "contentAddressWithReferences (ValidPathInfo_init store name car nh) = Inr (Some car)"
proof (cases car)
  case (TextInfo h refs)
  then show ?thesis
    using assms
    by (simp add: ValidPathInfo_init_def contentAddressWithReferences_def Let_def
        UnkeyedValidPathInfo_init_def UnkeyedValidPathInfo.defs ValidPathInfo.defs)
next
  case (FixedOutputInfo m h r)
  have r: "r = \<lparr> others = others r, self = self r \<rparr>" by simp
  show ?thesis
  proof (cases "self r")
    case True
    then show ?thesis
      using assms FixedOutputInfo r
      by (simp add: ValidPathInfo_init_def contentAddressWithReferences_def Let_def
        UnkeyedValidPathInfo_init_def UnkeyedValidPathInfo.defs ValidPathInfo.defs)
  next
    case False
    then show ?thesis
      using assms FixedOutputInfo r
      by (simp add: ValidPathInfo_init_def contentAddressWithReferences_def Let_def
        UnkeyedValidPathInfo_init_def UnkeyedValidPathInfo.defs ValidPathInfo.defs)
  qed
qed


theorem ca_roundtrip_witness:
  "makeFixedOutputPathFromCA store0 ''pkg''
       (FixedOutputInfo NAR sha256_abc \<lparr> others = {''a-dep''}, self = True \<rparr>) \<notin> {''a-dep''}
   \<and> contentAddressWithReferences
        (ValidPathInfo_init store0 ''pkg''
           (FixedOutputInfo NAR sha256_abc \<lparr> others = {''a-dep''}, self = True \<rparr>) dummy)
       = Inr (Some (FixedOutputInfo NAR sha256_abc \<lparr> others = {''a-dep''}, self = True \<rparr>))"
proof -
  let ?car = "FixedOutputInfo NAR sha256_abc \<lparr> others = {''a-dep''}, self = True \<rparr>"
  have h: "makeFixedOutputPathFromCA store0 ''pkg'' ?car
             \<notin> (case ?car of TextInfo h refs \<Rightarrow> refs | FixedOutputInfo m h r \<Rightarrow> others r)"
    by (simp add: store0_def)
  show ?thesis using ca_roundtrip [OF h, of dummy] h by simp
qed

text \<open>
  Without that condition the reconstruction differs: with a store that derives the path
  \<open>b-pkg\<close>, a FixedOutputInfo that lists \<open>b-pkg\<close> among the others and has no
  self-reference comes back with the self flag set and no others.
\<close>

theorem ca_roundtrip_counterexample:
  "contentAddressWithReferences
     (ValidPathInfo_init store0 ''pkg''
        (FixedOutputInfo NAR sha256_abc \<lparr> others = {''b-pkg''}, self = False \<rparr>) dummy)
   = Inr (Some (FixedOutputInfo NAR sha256_abc \<lparr> others = {}, self = True \<rparr>))
   \<and> contentAddressWithReferences
     (ValidPathInfo_init store0 ''pkg''
        (FixedOutputInfo NAR sha256_abc \<lparr> others = {''b-pkg''}, self = False \<rparr>) dummy)
   \<noteq> Inr (Some (FixedOutputInfo NAR sha256_abc \<lparr> others = {''b-pkg''}, self = False \<rparr>))"
  by (simp add: ValidPathInfo_init_def contentAddressWithReferences_def Let_def store0_def
        UnkeyedValidPathInfo_init_def UnkeyedValidPathInfo.defs ValidPathInfo.defs)

subsection \<open>Signatures\<close>

lemma checkSignatures_loop_ok:
  "fingerprint store v = Inr fp \<Longrightarrow>
   checkSignatures_loop vd store pk v ss good = Inr (good + length (filter (\<lambda>s. vd fp s pk) ss))"
  by (induction ss arbitrary: good) (simp_all add: checkSignature_def)

lemma checkSignatures_loop_err:
  "fingerprint store v = Inl e \<Longrightarrow> ss \<noteq> [] \<Longrightarrow>
   checkSignatures_loop vd store pk v ss good = Inl e"
  by (cases ss) (simp_all add: checkSignature_def)

text \<open>
  C5, as the code has it: when the path is content-addressed, \<open>checkSignatures\<close> returns
  \<open>maxSigs\<close>, whatever the signatures and keys are. When it is not, and the fingerprint
  can be computed, it returns the number of signatures that \<open>checkSignature\<close> accepts;
  with no signatures it returns 0; with at least one signature and a failing
  fingerprint it fails with the fingerprint's error.
\<close>

theorem checkSignatures_spec:
  "(isContentAddressed store v = Inr True \<longrightarrow>
      checkSignatures maxSigs vd store pk v = Inr maxSigs)
   \<and> (isContentAddressed store v = Inr False \<longrightarrow>
        (\<forall>fp. fingerprint store v = Inr fp \<longrightarrow>
           checkSignatures maxSigs vd store pk v =
             Inr (length (filter (\<lambda>sig. checkSignature vd store pk sig v = Inr True) (sigs v))))
        \<and> (sigs v = [] \<longrightarrow> checkSignatures maxSigs vd store pk v = Inr 0)
        \<and> (\<forall>e. fingerprint store v = Inl e \<and> sigs v \<noteq> [] \<longrightarrow>
             checkSignatures maxSigs vd store pk v = Inl e))"
proof -
  have a: "checkSignatures maxSigs vd store pk v = Inr maxSigs"
    if "isContentAddressed store v = Inr True"
    using that by (simp add: checkSignatures_def)
  have b: "checkSignatures maxSigs vd store pk v =
             Inr (length (filter (\<lambda>sig. checkSignature vd store pk sig v = Inr True) (sigs v)))"
    if "isContentAddressed store v = Inr False" "fingerprint store v = Inr fp" for fp
    using that checkSignatures_loop_ok [OF that(2), of vd pk "sigs v" 0]
    by (simp add: checkSignatures_def checkSignature_def)
  have c: "checkSignatures maxSigs vd store pk v = Inr 0"
    if "isContentAddressed store v = Inr False" "sigs v = []"
    using that by (simp add: checkSignatures_def)
  have d: "checkSignatures maxSigs vd store pk v = Inl e"
    if "isContentAddressed store v = Inr False" "fingerprint store v = Inl e \<and> sigs v \<noteq> []" for e
    using that checkSignatures_loop_err [of store v e "sigs v" vd pk 0]
    by (simp add: checkSignatures_def)
  show ?thesis using a b c d by blast
qed

theorem checkSignatures_spec_witness:
  "isContentAddressed store0 info0 = Inr False
   \<and> checkSignatures 18446744073709551615 verify0 store0 [''k1'', ''k3''] info0 = Inr 2
   \<and> isContentAddressed store0
        (info0\<lparr>ca := Some (ContentAddress (FileIngestion NAR) sha256_abc), sigs := []\<rparr>) = Inr True
   \<and> checkSignatures 18446744073709551615 verify0 store0 []
        (info0\<lparr>ca := Some (ContentAddress (FileIngestion NAR) sha256_abc), sigs := []\<rparr>)
       = Inr 18446744073709551615"
proof -
  let ?v = "info0\<lparr>ca := Some (ContentAddress (FileIngestion NAR) sha256_abc), sigs := []\<rparr>"
  have n: "isContentAddressed store0 info0 = Inr False"
    by (simp add: isContentAddressed_def contentAddressWithReferences_def info0_def)
  have y: "isContentAddressed store0 ?v = Inr True"
    by (simp add: isContentAddressed_def contentAddressWithReferences_def info0_def store0_def)
  have hs: "to_string sha256_abc Base32 True
              = Inr ''sha256:1b8m03r63zqhnjf7l5wnldhh7c134ap5vpj0850ymkq1iyzicy5s''"
    by code_simp
  have fp: "fingerprint store0 info0 =
       Inr ''1;/nix/store/b-pkg;sha256:1b8m03r63zqhnjf7l5wnldhh7c134ap5vpj0850ymkq1iyzicy5s;1203;/nix/store/a-dep,/nix/store/b-pkg''"
    by (simp add: fingerprint_def hs info0_def store0_def to_string_u64_def)
  have cnt: "length (filter (\<lambda>sig. checkSignature verify0 store0 [''k1'', ''k3''] sig info0 = Inr True)
               (sigs info0)) = 2"
    by (simp add: checkSignature_def fp verify0_def) (simp add: info0_def)
  have 1: "checkSignatures 18446744073709551615 verify0 store0 [''k1'', ''k3''] info0 = Inr 2"
    using checkSignatures_spec [of store0 info0 18446744073709551615 verify0 "[''k1'', ''k3'']"] n fp cnt
    by simp
  have 2: "checkSignatures 18446744073709551615 verify0 store0 [] ?v = Inr 18446744073709551615"
    using checkSignatures_spec [of store0 ?v 18446744073709551615 verify0 "[]"] y by blast
  show ?thesis using n y 1 2 by blast
qed

text \<open>
  A record with three signatures and \<open>narSize = 0\<close> that is not content-addressed:
  \<open>checkSignatures\<close> returns no number, it fails in the fingerprint.
\<close>

theorem checkSignatures_counterexample:
  "isContentAddressed store0 (info0\<lparr>narSize := 0\<rparr>) = Inr False
   \<and> sigs (info0\<lparr>narSize := 0\<rparr>) = [''k1:good'', ''k2:bad'', ''k3:good'']
   \<and> checkSignatures 18446744073709551615 verify0 store0 [''k1'', ''k3''] (info0\<lparr>narSize := 0\<rparr>)
       = Inl NarSizeUnknown"
  by (simp add: checkSignatures_def isContentAddressed_def contentAddressWithReferences_def
      checkSignature_def fingerprint_def info0_def)

end
